theory Spec2Isabelle
  imports Complex_Main "HOL-Library.Multiset"
begin

section \<open>JavaScript values and the string built-ins the scripts use\<close>

text \<open>
  A JavaScript number is an IEEE 754 double: \<open>NaN\<close>, an infinity, or a finite value,
  given here as the rational it stands for. Arithmetic and the conversions from text
  compute the exact result and round it to the nearest double (\<open>roundDouble\<close>
  below), as the engine does. Negative zero is not told apart from zero. A string is
  a list of code units below 256. A \<open>Date\<close> is its time value in milliseconds since
  the epoch, \<open>None\<close> for an invalid date.
\<close>

datatype jsnum = Fin rat | NaN | PosInf | NegInf

datatype jsval =
  JUndefined
| JNull
| JBool bool
| JNum jsnum
| JStr string
| JDate "int option"

datatype error = TypeError | IdCounterExceeded

type_synonym row = "jsval list"

text \<open>\<open>row[i]\<close>: reading past the end of an array yields \<open>undefined\<close>.\<close>

definition idx :: "row \<Rightarrow> nat \<Rightarrow> jsval" where
  "idx r i = (if i < length r then r ! i else JUndefined)"

text \<open>
  White space and line terminators of ECMAScript, as far as they are below 256: tab,
  line feed, vertical tab, form feed, carriage return, space, no-break space.
\<close>

definition isWhiteSpace :: "char \<Rightarrow> bool" where
  "isWhiteSpace c =
     (c \<in> set [CHR 0x09, CHR 0x0A, CHR 0x0B, CHR 0x0C, CHR 0x0D, CHR 0x20, CHR 0xA0])"

text \<open>\<open>String.prototype.trim\<close>.\<close>

definition trim :: "string \<Rightarrow> string" where
  "trim s = rev (dropWhile isWhiteSpace (rev (dropWhile isWhiteSpace s)))"

text \<open>The regular-expression class \<open>\d\<close>: the ten ASCII digits.\<close>

definition isDigit :: "char \<Rightarrow> bool" where
  "isDigit c = (c \<in> set ''0123456789'')"

text \<open>The value of a digit, and the integer a string of digits spells.\<close>

definition digitVal :: "char \<Rightarrow> int" where
  "digitVal c = int (length (takeWhile (\<lambda>d. d \<noteq> c) ''0123456789''))"

definition digitsValue :: "string \<Rightarrow> int" where
  "digitsValue ds = foldl (\<lambda>n c. 10 * n + digitVal c) 0 ds"

text \<open>\<open>/^\d+$/.test(s)\<close>: one or more digits and nothing else.\<close>

definition allDigits :: "string \<Rightarrow> bool" where
  "allDigits s = (s \<noteq> [] \<and> list_all isDigit s)"

text \<open>
  \<open>String.prototype.toLowerCase\<close> on code units below 256: the ASCII capitals and
  the Latin-1 capitals \<open>0xC0..0xDE\<close> (without the multiplication sign \<open>0xD7\<close>)
  have a lower-case partner 32 places up.
\<close>

definition asciiUpperChars :: string where
  "asciiUpperChars = ''ABCDEFGHIJKLMNOPQRSTUVWXYZ''"

definition asciiLowerChars :: string where
  "asciiLowerChars = ''abcdefghijklmnopqrstuvwxyz''"

definition upperChars :: string where
  "upperChars =
     asciiUpperChars @
     [CHR 0xC0, CHR 0xC1, CHR 0xC2, CHR 0xC3, CHR 0xC4, CHR 0xC5, CHR 0xC6, CHR 0xC7,
      CHR 0xC8, CHR 0xC9, CHR 0xCA, CHR 0xCB, CHR 0xCC, CHR 0xCD, CHR 0xCE, CHR 0xCF,
      CHR 0xD0, CHR 0xD1, CHR 0xD2, CHR 0xD3, CHR 0xD4, CHR 0xD5, CHR 0xD6, CHR 0xD8,
      CHR 0xD9, CHR 0xDA, CHR 0xDB, CHR 0xDC, CHR 0xDD, CHR 0xDE]"

definition lowerChars :: string where
  "lowerChars =
     asciiLowerChars @
     [CHR 0xE0, CHR 0xE1, CHR 0xE2, CHR 0xE3, CHR 0xE4, CHR 0xE5, CHR 0xE6, CHR 0xE7,
      CHR 0xE8, CHR 0xE9, CHR 0xEA, CHR 0xEB, CHR 0xEC, CHR 0xED, CHR 0xEE, CHR 0xEF,
      CHR 0xF0, CHR 0xF1, CHR 0xF2, CHR 0xF3, CHR 0xF4, CHR 0xF5, CHR 0xF6, CHR 0xF8,
      CHR 0xF9, CHR 0xFA, CHR 0xFB, CHR 0xFC, CHR 0xFD, CHR 0xFE]"

definition toLowerChar :: "char \<Rightarrow> char" where
  "toLowerChar c = (case map_of (zip upperChars lowerChars) c of Some l \<Rightarrow> l | None \<Rightarrow> c)"

definition toLowerCase :: "string \<Rightarrow> string" where
  "toLowerCase s = map toLowerChar s"

text \<open>
  Case-insensitive matching of a regular expression without the \<open>u\<close> flag never
  identifies an ASCII letter with a code unit outside ASCII, so against an ASCII
  pattern it compares ASCII-lowered code units.
\<close>

definition asciiLower :: "char \<Rightarrow> char" where
  "asciiLower c =
     (case map_of (zip asciiUpperChars asciiLowerChars) c of Some l \<Rightarrow> l | None \<Rightarrow> c)"

text \<open>\<open>s.includes(p)\<close>: \<open>p\<close> occurs in \<open>s\<close> as a contiguous substring.\<close>

fun strIncludes :: "string \<Rightarrow> string \<Rightarrow> bool" where
  "strIncludes [] p = (p = [])"
| "strIncludes (c # cs) p = (take (length p) (c # cs) = p \<or> strIncludes cs p)"

definition isInteger :: "rat \<Rightarrow> bool" where
  "isInteger q = (of_int \<lfloor>q\<rfloor> = q)"

subsection \<open>Rounding to a double\<close>

text \<open>The power \<open>2^k\<close> for an integer \<open>k\<close>.\<close>

definition pow2 :: "int \<Rightarrow> rat" where
  "pow2 k = (if k \<ge> 0 then of_int (2 ^ nat k) else 1 / of_int (2 ^ nat (- k)))"

text \<open>The number of binary digits of a positive integer.\<close>

function bitLength :: "int \<Rightarrow> int" where
  "bitLength n = (if n \<le> 0 then 0 else 1 + bitLength (n div 2))"
  by pat_completeness auto
termination
  by (relation "measure nat") auto

declare bitLength.simps [simp del]

text \<open>
  The binary exponent of a positive rational \<open>a\<close>: the \<open>e\<close> with
  \<open>2^e \<le> a < 2^(e+1)\<close>. The difference of the bit lengths of numerator and
  denominator is \<open>e\<close> or \<open>e + 1\<close>.
\<close>

definition floorLog2 :: "rat \<Rightarrow> int" where
  "floorLog2 a =
     (let k = bitLength (fst (quotient_of a)) - bitLength (snd (quotient_of a))
      in if pow2 k \<le> a then k else k - 1)"

text \<open>Rounding to the nearest integer, a tie to the even one.\<close>

definition roundHalfEven :: "rat \<Rightarrow> int" where
  "roundHalfEven x =
     (let f = \<lfloor>x\<rfloor>; d = x - of_int f
      in if d < 1 / 2 then f else if d > 1 / 2 then f + 1 else if even f then f else f + 1)"

text \<open>
  The double nearest to a rational, ties to the even significand: the significand
  has 53 bits, so the spacing of doubles around \<open>a\<close> is \<open>2^(e-52)\<close> for the exponent
  \<open>e\<close> of \<open>a\<close>, and \<open>2^(-1074)\<close> below the normal range; a result of \<open>2^1024\<close> is
  an infinity.
\<close>

definition roundDouble :: "rat \<Rightarrow> jsnum" where
  "roundDouble q =
     (if q = 0 then Fin 0
      else
        (let a = \<bar>q\<bar>;
             e = max (floorLog2 a) (- 1022);
             ulp = pow2 (e - 52);
             r = of_int (roundHalfEven (a / ulp)) * ulp
         in if r \<ge> pow2 1024 then (if q < 0 then NegInf else PosInf)
            else Fin (if q < 0 then - r else r)))"

text \<open>
  Every integer from 0 to \<open>2^53\<close> is a double; above, the doubles are 2 or more
  apart.
\<close>

definition exactIntegerLimit :: nat where
  "exactIntegerLimit = 2 ^ 53"

subsection \<open>Operations on numbers\<close>

definition isNaN :: "jsnum \<Rightarrow> bool" where
  "isNaN n = (n = NaN)"

text \<open>\<open>a + b\<close>, \<open>- a\<close>, \<open>a - b\<close> and \<open>a * b\<close> on numbers.\<close>

definition jsAdd :: "jsnum \<Rightarrow> jsnum \<Rightarrow> jsnum" where
  "jsAdd a b =
     (case (a, b) of
        (Fin x, Fin y) \<Rightarrow> roundDouble (x + y)
      | (NaN, _) \<Rightarrow> NaN
      | (_, NaN) \<Rightarrow> NaN
      | (PosInf, NegInf) \<Rightarrow> NaN
      | (NegInf, PosInf) \<Rightarrow> NaN
      | (PosInf, _) \<Rightarrow> PosInf
      | (_, PosInf) \<Rightarrow> PosInf
      | (NegInf, _) \<Rightarrow> NegInf
      | (_, NegInf) \<Rightarrow> NegInf)"

definition jsNeg :: "jsnum \<Rightarrow> jsnum" where
  "jsNeg a = (case a of Fin x \<Rightarrow> Fin (- x) | NaN \<Rightarrow> NaN | PosInf \<Rightarrow> NegInf | NegInf \<Rightarrow> PosInf)"

definition jsSub :: "jsnum \<Rightarrow> jsnum \<Rightarrow> jsnum" where
  "jsSub a b = jsAdd a (jsNeg b)"

definition signOf :: "jsnum \<Rightarrow> int" where
  "signOf a =
     (case a of
        Fin x \<Rightarrow> (if x > 0 then 1 else if x < 0 then - 1 else 0)
      | NaN \<Rightarrow> 0
      | PosInf \<Rightarrow> 1
      | NegInf \<Rightarrow> - 1)"

definition jsMul :: "jsnum \<Rightarrow> jsnum \<Rightarrow> jsnum" where
  "jsMul a b =
     (case (a, b) of
        (Fin x, Fin y) \<Rightarrow> roundDouble (x * y)
      | _ \<Rightarrow>
          (if signOf a * signOf b > 0 then PosInf
           else if signOf a * signOf b < 0 then NegInf
           else NaN))"

text \<open>
  The comparisons \<open>a > b\<close> of two numbers, and \<open>a >= c\<close> and \<open>a < c\<close> against a
  finite constant; a comparison with \<open>NaN\<close> is false.
\<close>

definition jsGt :: "jsnum \<Rightarrow> jsnum \<Rightarrow> bool" where
  "jsGt a b =
     (case (a, b) of
        (Fin x, Fin y) \<Rightarrow> x > y
      | (PosInf, Fin y) \<Rightarrow> True
      | (PosInf, NegInf) \<Rightarrow> True
      | (Fin x, NegInf) \<Rightarrow> True
      | _ \<Rightarrow> False)"

definition jsGe :: "jsnum \<Rightarrow> rat \<Rightarrow> bool" where
  "jsGe a c = (case a of Fin x \<Rightarrow> x \<ge> c | PosInf \<Rightarrow> True | _ \<Rightarrow> False)"

definition jsLt :: "jsnum \<Rightarrow> rat \<Rightarrow> bool" where
  "jsLt a c = (case a of Fin x \<Rightarrow> x < c | NegInf \<Rightarrow> True | _ \<Rightarrow> False)"

subsection \<open>Numbers and text\<close>

text \<open>
  \<open>parseInt(s, 10)\<close>: the double nearest to the integer that the digits after the
  optional sign spell, \<open>NaN\<close> when there is no digit. (The language lets an engine
  drop the digits after the 20th before rounding; the engine of Apps Script rounds
  the whole integer.)
\<close>

definition parseInt10 :: "string \<Rightarrow> jsnum" where
  "parseInt10 s =
     (let t = dropWhile isWhiteSpace s;
          neg = (t \<noteq> [] \<and> hd t = CHR ''-'');
          u = (if t \<noteq> [] \<and> (hd t = CHR ''-'' \<or> hd t = CHR ''+'') then tl t else t);
          ds = takeWhile isDigit u
      in if ds = [] then NaN
         else if neg then jsNeg (roundDouble (of_int (digitsValue ds)))
         else roundDouble (of_int (digitsValue ds)))"

text \<open>
  The decimal rendering of an integer (\<open>Number.prototype.toString\<close>); \<open>showDigits\<close>
  renders one that is not negative.
\<close>

function showDigits :: "int \<Rightarrow> string" where
  "showDigits i =
     (if i < 10 then [''0123456789'' ! nat i]
      else showDigits (i div 10) @ [''0123456789'' ! nat (i mod 10)])"
  by pat_completeness auto
termination
  by (relation "measure nat") auto

declare showDigits.simps [simp del]

definition showInt :: "int \<Rightarrow> string" where
  "showInt i = (if i < 0 then CHR ''-'' # showDigits (- i) else showDigits i)"

text \<open>
  A natural number as the finite value it is. It is a JavaScript number when it is a
  double, as every one up to \<open>exactIntegerLimit\<close> is.
\<close>

definition numOfNat :: "nat \<Rightarrow> jsnum" where
  "numOfNat n = Fin (of_int (int n))"

section \<open>MatchAssignUniqueCodes.js\<close>

subsection \<open>extractNumericBel\<close>

text \<open>
  The result is the identifier, a number, or \<open>None\<close> for \<open>null\<close>. The branches follow
  the source: a number that is an integer and not negative is returned as it is
  (\<open>Number.isInteger\<close> is false of \<open>NaN\<close> and the infinities); a string is trimmed,
  refused when empty or when it is not purely digits, and parsed otherwise, the
  parsed number being returned unless it is \<open>NaN\<close> or negative; everything else is
  refused.
\<close>

definition extractNumericBel :: "jsval \<Rightarrow> jsnum option" where
  "extractNumericBel codeValue =
     (case codeValue of
        JNum (Fin q) \<Rightarrow> (if isInteger q \<and> q \<ge> 0 then Some (Fin q) else None)
      | JStr s \<Rightarrow>
          (let numStr = trim s
           in if numStr = [] then None
              else if \<not> allDigits numStr then None
              else (let num = parseInt10 numStr
                    in if \<not> isNaN num \<and> jsGe num 0 then Some num else None))
      | _ \<Rightarrow> None)"

subsection \<open>The built-ins that depend on the host\<close>

text \<open>
  What the engine leaves to the implementation is a parameter of the model: how a
  string is parsed as a date, and how a time value is split into local calendar
  fields and rendered. The rendering of a number that is not an integer below
  \<open>10^21\<close> (its shortest decimal or exponent form) is a parameter too.
\<close>

record runtime =
  parseDate :: "string \<Rightarrow> int option"
  getMonth :: "int \<Rightarrow> nat"
  getFullYear :: "int \<Rightarrow> int"
  toDateString :: "int \<Rightarrow> string"
  dateToString :: "int \<Rightarrow> string"
  numberToString :: "rat \<Rightarrow> string"

text \<open>\<open>String(v)\<close>; for every value but \<open>null\<close> and \<open>undefined\<close> it is \<open>v.toString()\<close>.\<close>

definition jsString :: "runtime \<Rightarrow> jsval \<Rightarrow> string" where
  "jsString rt v =
     (case v of
        JUndefined \<Rightarrow> ''undefined''
      | JNull \<Rightarrow> ''null''
      | JBool b \<Rightarrow> (if b then ''true'' else ''false'')
      | JNum (Fin q) \<Rightarrow>
          (if isInteger q \<and> \<bar>q\<bar> < 10 ^ 21 then showInt \<lfloor>q\<rfloor> else numberToString rt q)
      | JNum NaN \<Rightarrow> ''NaN''
      | JNum PosInf \<Rightarrow> ''Infinity''
      | JNum NegInf \<Rightarrow> ''-Infinity''
      | JStr s \<Rightarrow> s
      | JDate None \<Rightarrow> ''Invalid Date''
      | JDate (Some t) \<Rightarrow> dateToString rt t)"

subsection \<open>normalize\<close>

text \<open>
  \<open>name?.toString().trim().toLowerCase()\<close>: the optional chain stops at \<open>null\<close> and
  \<open>undefined\<close> and the whole expression is then \<open>undefined\<close>, here \<open>None\<close>.
\<close>

definition normalize :: "runtime \<Rightarrow> jsval \<Rightarrow> string option" where
  "normalize rt name =
     (case name of
        JUndefined \<Rightarrow> None
      | JNull \<Rightarrow> None
      | _ \<Rightarrow> Some (toLowerCase (trim (jsString rt name))))"

text \<open>The test \<open>if (name)\<close> on a normalized name: \<open>undefined\<close> and \<open>""\<close> are falsy.\<close>

definition truthyName :: "string option \<Rightarrow> bool" where
  "truthyName name = (case name of None \<Rightarrow> False | Some s \<Rightarrow> s \<noteq> [])"

subsection \<open>matchOrAssignBelCodes\<close>

record sheets =
  sData :: "row list"
  eData :: "row list"
  dData :: "row list"

text \<open>
  A \<open>Map\<close> is the list of its entries and a \<open>Set\<close> the list of its elements, both
  in insertion order as the engine keeps them.
\<close>

definition mapHas :: "('k \<times> 'v) list \<Rightarrow> 'k \<Rightarrow> bool" where
  "mapHas m k = (map_of m k \<noteq> None)"

definition mapGet :: "('k \<times> 'v) list \<Rightarrow> 'k \<Rightarrow> 'v option" where
  "mapGet m k = map_of m k"

definition mapSet :: "'k \<Rightarrow> 'v \<Rightarrow> ('k \<times> 'v) list \<Rightarrow> ('k \<times> 'v) list" where
  "mapSet k v m =
     (if mapHas m k then map (\<lambda>(k', v'). if k' = k then (k', v) else (k', v')) m
      else m @ [(k, v)])"

definition setAdd :: "'a \<Rightarrow> 'a list \<Rightarrow> 'a list" where
  "setAdd x xs = (if x \<in> set xs then xs else xs @ [x])"

text \<open>
  \<open>belMap\<close> is the \<open>Map\<close> from normalized names to identifiers, \<open>allUsedCodes\<close> the
  \<open>Set\<close> of identifiers.
\<close>

record idmaps =
  belMap :: "(string \<times> jsnum) list"
  allUsedCodes :: "jsnum list"

text \<open>Step 1, the body of the loop over the directory's data rows.\<close>

definition directoryRow :: "runtime \<Rightarrow> idmaps \<Rightarrow> row \<Rightarrow> idmaps" where
  "directoryRow rt m r =
     (if length r > 2 then
        (let originalBel = idx r 1;
             name = normalize rt (idx r 2);
             numericBel = extractNumericBel originalBel
         in if truthyName name then
              (case numericBel of
                 None \<Rightarrow> m
               | Some n \<Rightarrow>
                   \<lparr>belMap = (if \<not> mapHas (belMap m) (the name)
                              then mapSet (the name) n (belMap m) else belMap m),
                    allUsedCodes = setAdd n (allUsedCodes m)\<rparr>)
            else m)
      else m)"

text \<open>Step 2, the body of the loop over the attendance rows.\<close>

definition attendanceIdRow :: "runtime \<Rightarrow> idmaps \<Rightarrow> row \<Rightarrow> idmaps" where
  "attendanceIdRow rt m r =
     (if length r > 1 then
        (let originalBelFromRow = idx r 0;
             name = normalize rt (idx r 1);
             numericBelFromRow = extractNumericBel originalBelFromRow
         in case numericBelFromRow of
              None \<Rightarrow> m
            | Some n \<Rightarrow>
                \<lparr>belMap = (if truthyName name \<and> \<not> mapHas (belMap m) (the name)
                           then mapSet (the name) n (belMap m) else belMap m),
                 allUsedCodes = setAdd n (allUsedCodes m)\<rparr>)
      else m)"

text \<open>\<open>data.slice(1)\<close> under the guard \<open>data.length > 1\<close>: the rows below the header.\<close>

definition dataRows :: "row list \<Rightarrow> row list" where
  "dataRows data = (if length data > 1 then tl data else [])"

definition attendanceDataRaw :: "sheets \<Rightarrow> row list" where
  "attendanceDataRaw d = dataRows (eData d) @ dataRows (sData d)"

text \<open>Steps 1 and 2: the directory first, then the event rows, then the service rows.\<close>

definition collectIds :: "runtime \<Rightarrow> sheets \<Rightarrow> idmaps" where
  "collectIds rt d =
     foldl (attendanceIdRow rt)
       (foldl (directoryRow rt) \<lparr>belMap = [], allUsedCodes = []\<rparr> (dataRows (dData d)))
       (attendanceDataRaw d)"

text \<open>Step 3: the highest identifier found, starting from 0.\<close>

definition highestFound :: "jsnum list \<Rightarrow> jsnum" where
  "highestFound codes = foldl (\<lambda>h code. if jsGt code h then code else h) (Fin 0) codes"

text \<open>
  The state of steps 4 and 5. \<open>generatedLog\<close> holds the identifiers reported by the
  log line \<open>Generated new NUMERIC ID\<close>, in the order they were generated.
\<close>

record genstate =
  ids :: idmaps
  codeCounter :: jsnum
  highestFoundNum :: jsnum
  results :: "row list"
  generatedLog :: "jsnum list"

definition initGen :: "idmaps \<Rightarrow> genstate" where
  "initGen m =
     \<lparr>ids = m,
      codeCounter = jsAdd (highestFound (allUsedCodes m)) (Fin 1),
      highestFoundNum = highestFound (allUsedCodes m),
      results = [],
      generatedLog = []\<rparr>"

text \<open>
  Step 4, \<open>generateBEL\<close>: the \<open>while (true)\<close> loop. An iteration returns the
  counter's value, or throws when the incremented counter has passed
  \<open>highestFoundNum + 20000\<close>, or goes on to the next iteration. Nothing bounds the
  number of iterations: \<open>codeCounter++\<close> leaves a counter of \<open>2^53\<close> or of \<open>Infinity\<close>
  as it is. The result \<open>None\<close> says that the loop never ends.
\<close>

partial_function (option) generateBEL :: "genstate \<Rightarrow> (error + jsnum \<times> genstate) option" where
  "generateBEL st =
     (if codeCounter st \<notin> set (allUsedCodes (ids st)) then
        Some (Inr (codeCounter st,
                   st\<lparr>ids := (ids st)\<lparr>allUsedCodes := setAdd (codeCounter st) (allUsedCodes (ids st))\<rparr>,
                      codeCounter := jsAdd (codeCounter st) (Fin 1)\<rparr>))
      else if jsGt (jsAdd (codeCounter st) (Fin 1)) (jsAdd (highestFoundNum st) (Fin 20000))
      then Some (Inl IdCounterExceeded)
      else generateBEL (st\<lparr>codeCounter := jsAdd (codeCounter st) (Fin 1)\<rparr>))"

declare generateBEL.simps [code]

text \<open>The reshaping of a raw row into the 11 columns, \<open>None\<close> when the row is skipped.\<close>

definition formatRow :: "jsnum \<Rightarrow> row \<Rightarrow> row option" where
  "formatRow numericBel r =
     (if length r \<ge> 11 \<and> idx r 10 \<noteq> JUndefined then
        Some [JNum numericBel, idx r 1, idx r 2, idx r 3, idx r 4, idx r 5,
              idx r 6, idx r 7, idx r 8, idx r 9, idx r 10]
      else if length r \<ge> 8 \<and> idx r 4 \<noteq> JUndefined then
        Some [JNum numericBel, idx r 1, JStr ''Sunday Service'', JStr ''Service'',
              idx r 2, idx r 3, idx r 6, JStr [], JStr [], JStr [], idx r 4]
      else None)"

text \<open>
  Step 5, the body of the loop over the attendance rows. As for the generator,
  \<open>None\<close> says that the body never ends.
\<close>

definition assignRow :: "runtime \<Rightarrow> genstate \<Rightarrow> row \<Rightarrow> (error + genstate) option" where
  "assignRow rt st r =
     (if length r < 2 then Some (Inr st)
      else if \<not> truthyName (normalize rt (idx r 1)) then Some (Inr st)
      else
        (let name = the (normalize rt (idx r 1))
         in case (if mapHas (belMap (ids st)) name
                  then Some (Inr (the (mapGet (belMap (ids st)) name), st))
                  else (case generateBEL st of
                          None \<Rightarrow> None
                        | Some (Inl e) \<Rightarrow> Some (Inl e)
                        | Some (Inr (n, st')) \<Rightarrow>
                            Some (Inr (n, st'\<lparr>ids := (ids st')\<lparr>belMap := mapSet name n (belMap (ids st'))\<rparr>,
                                              generatedLog := generatedLog st' @ [n]\<rparr>)))) of
              None \<Rightarrow> None
            | Some (Inl e) \<Rightarrow> Some (Inl e)
            | Some (Inr (numericBel, st1)) \<Rightarrow>
                (case formatRow numericBel r of
                   None \<Rightarrow> Some (Inr st1)
                 | Some formattedRow \<Rightarrow> Some (Inr (st1\<lparr>results := results st1 @ [formattedRow]\<rparr>)))))"

fun assignRows :: "runtime \<Rightarrow> genstate \<Rightarrow> row list \<Rightarrow> (error + genstate) option" where
  "assignRows rt st [] = Some (Inr st)"
| "assignRows rt st (r # rs) =
     (case assignRow rt st r of
        None \<Rightarrow> None
      | Some (Inl e) \<Rightarrow> Some (Inl e)
      | Some (Inr st') \<Rightarrow> assignRows rt st' rs)"

text \<open>
  The whole run on loaded sheets: it ends with its final state, or throws, or, for
  \<open>None\<close>, never ends.
\<close>

definition runAssignment :: "runtime \<Rightarrow> sheets \<Rightarrow> (error + genstate) option" where
  "runAssignment rt d = assignRows rt (initGen (collectIds rt d)) (attendanceDataRaw d)"

text \<open>
  \<open>matchOrAssignBelCodes\<close>: \<open>data\<close> is what \<open>getDataFromSheets\<close> returned, \<open>None\<close> when
  it returned nothing.
\<close>

definition matchOrAssignBelCodes :: "runtime \<Rightarrow> sheets option \<Rightarrow> (error + row list) option" where
  "matchOrAssignBelCodes rt data =
     (case data of
        None \<Rightarrow> Some (Inr [])
      | Some d \<Rightarrow>
          (case runAssignment rt d of
             None \<Rightarrow> None
           | Some (Inl e) \<Rightarrow> Some (Inl e)
           | Some (Inr st) \<Rightarrow> Some (Inr (results st))))"

subsection \<open>The states of a run and the generator's invariants\<close>


text \<open>
  The runs in which the counter counts exactly. The number of attendance rows bounds
  the number of generated identifiers: it is below \<open>2^53\<close>, and every identifier
  found in the sheets is an integer that is not negative and that stays below
  \<open>2^53\<close> when that number is added.
\<close>

definition idsStayExact :: "runtime \<Rightarrow> sheets \<Rightarrow> bool" where
  "idsStayExact rt d =
     (let rows = of_int (int (length (attendanceDataRaw d)))
      in rows < 2 ^ 53
         \<and> list_all
             (\<lambda>u. case u of
                     Fin q \<Rightarrow> isInteger q \<and> 0 \<le> q \<and> q + rows < 2 ^ 53
                   | _ \<Rightarrow> False)
             (allUsedCodes (collectIds rt d)))"

text \<open>
  The invariants of such a run, with \<open>k\<close> attendance rows still to come: the counter
  is an integer with \<open>k\<close> exact increments ahead of it and above every used
  identifier; the generated identifiers are increasing integers between the highest
  identifier found and the counter, the first of them next to the highest found.
\<close>

definition counterAbove :: "nat \<Rightarrow> genstate \<Rightarrow> bool" where
  "counterAbove k st =
     (\<exists>c. codeCounter st = numOfNat c \<and> c + k \<le> exactIntegerLimit
        \<and> (\<forall>u\<in>set (allUsedCodes (ids st)). \<exists>n<c. u = numOfNat n))"

definition logInv :: "genstate \<Rightarrow> bool" where
  "logInv st =
     (\<exists>c h ns. codeCounter st = numOfNat c \<and> highestFoundNum st = numOfNat h
        \<and> generatedLog st = map numOfNat ns
        \<and> sorted_wrt (<) ns
        \<and> (\<forall>g\<in>set ns. h < g \<and> g < c)
        \<and> (if ns = [] then c = h + 1 else hd ns = h + 1))"


section \<open>calculateAttendanceStats\<close>

text \<open>
  \<open>new Date(ms)\<close> for a number: the time value is clipped (truncated towards zero,
  invalid beyond \<open>8.64e15\<close> in absolute value).
\<close>

definition timeClip :: "jsnum \<Rightarrow> int option" where
  "timeClip n =
     (case n of
        Fin q \<Rightarrow>
          (if \<bar>q\<bar> > 8640000000000000 then None
           else Some (if q \<ge> 0 then \<lfloor>q\<rfloor> else - \<lfloor>- q\<rfloor>))
      | _ \<Rightarrow> None)"

text \<open>
  The three ways the source obtains \<open>date\<close> from column K: a \<open>Date\<close> is used as it
  is, a number is read as a spreadsheet serial day, anything else is parsed from its
  string form. The result is the time value, \<open>None\<close> when \<open>isNaN(date.getTime())\<close>.
\<close>

definition parseTimestamp :: "runtime \<Rightarrow> jsval \<Rightarrow> int option" where
  "parseTimestamp rt dateStr =
     (case dateStr of
        JDate d \<Rightarrow> d
      | JNum n \<Rightarrow>
          timeClip (jsMul (jsMul (jsSub n (jsAdd (Fin 25567) (Fin 2))) (Fin 86400)) (Fin 1000))
      | _ \<Rightarrow> parseDate rt (jsString rt dateStr))"

text \<open>\<open>/sunday service/i.test(eventName)\<close> on a string.\<close>

definition matchesSundayService :: "string \<Rightarrow> bool" where
  "matchesSundayService s = strIncludes (map asciiLower s) ''sunday service''"

record attendanceRecord =
  name :: jsval
  date :: int
  eventKey :: string
  month :: nat
  quarter :: nat
  year :: int
  isVolunteer :: bool
  isSundayService :: bool

text \<open>
  The body of the first loop for one row: \<open>None\<close> when the row is skipped (fewer than
  11 columns, or an invalid date), otherwise the key \<open>String(bel)\<close> of the group and
  the record pushed to it.
\<close>

definition attendanceEntry :: "runtime \<Rightarrow> row \<Rightarrow> (string \<times> attendanceRecord) option" where
  "attendanceEntry rt r =
     (if length r < 11 then None
      else
        (let bel = idx r 0;
             eventName = idx r 2;
             eventId = idx r 3;
             role = idx r 9;
             dateStr = idx r 10
         in case parseTimestamp rt dateStr of
              None \<Rightarrow> None
            | Some t \<Rightarrow>
                (let sundayService = (case eventName of JStr s \<Rightarrow> matchesSundayService s | _ \<Rightarrow> False);
                     volunteer = (case role of JStr s \<Rightarrow> strIncludes (toLowerCase s) ''volunteer''
                                  | _ \<Rightarrow> False);
                     eventNameKey = (case eventName of JStr s \<Rightarrow> s | _ \<Rightarrow> ''UnknownEvent'');
                     eventIdKey = (case eventId of JStr s \<Rightarrow> s | _ \<Rightarrow> ''UnknownID'')
                 in Some (jsString rt bel,
                      \<lparr>name = idx r 1,
                       date = t,
                       eventKey = (if sundayService then ''sunday service-'' @ toDateString rt t
                                   else eventNameKey @ ''-'' @ eventIdKey),
                       month = getMonth rt t,
                       quarter = getMonth rt t div 3,
                       year = getFullYear rt t,
                       isVolunteer = volunteer,
                       isSundayService = sundayService\<rparr>))))"

text \<open>
  \<open>if (!grouped.has(k)) grouped.set(k, []); grouped.get(k).push(record)\<close>: the array
  held by the map grows in place.
\<close>

definition groupPush ::
  "(string \<times> attendanceRecord list) list \<Rightarrow> string \<Rightarrow> attendanceRecord
     \<Rightarrow> (string \<times> attendanceRecord list) list" where
  "groupPush grouped k r =
     (let g = (if \<not> mapHas grouped k then mapSet k [] grouped else grouped)
      in mapSet k (the (mapGet g k) @ [r]) g)"

definition groupRows :: "runtime \<Rightarrow> row list \<Rightarrow> (string \<times> attendanceRecord list) list" where
  "groupRows rt rawData =
     foldl (\<lambda>grouped r. case attendanceEntry rt r of
                           None \<Rightarrow> grouped
                         | Some (k, record) \<Rightarrow> groupPush grouped k record)
       [] rawData"

text \<open>
  The inner loop over one person's records: the sets \<open>uniqueEvents\<close>, \<open>monthEvents\<close>,
  \<open>quarterEvents\<close> and the counter \<open>volunteerCount\<close>.
\<close>

definition tally ::
  "nat \<Rightarrow> nat \<Rightarrow> int \<Rightarrow> string list \<times> string list \<times> string list \<times> nat \<Rightarrow> attendanceRecord
     \<Rightarrow> string list \<times> string list \<times> string list \<times> nat" where
  "tally currentMonth currentQuarter currentYear acc r =
     (case acc of
        (uniqueEvents, monthEvents, quarterEvents, volunteerCount) \<Rightarrow>
          (setAdd (eventKey r) uniqueEvents,
           (if year r = currentYear \<and> month r = currentMonth
            then setAdd (eventKey r) monthEvents else monthEvents),
           (if year r = currentYear \<and> quarter r = currentQuarter
            then setAdd (eventKey r) quarterEvents else quarterEvents),
           (if isVolunteer r \<and> year r = currentYear then volunteerCount + 1 else volunteerCount)))"

text \<open>
  One row of the summary. The columns A to J of the source's array are the fields in
  this order; C and D are the empty placeholders. \<open>lastDate\<close> is \<open>None\<close> for the
  initial \<open>''\<close>.
\<close>

record summaryRow =
  bel :: string
  fullName :: jsval
  firstNamePlaceholder :: string
  lastNamePlaceholder :: string
  quarterEventCount :: nat
  monthEventCount :: nat
  volunteerCount :: nat
  lastDate :: "int option"
  lastEventName :: string
  totalUniqueEvents :: nat

text \<open>
  \<open>records.sort((a, b) => b.date.getTime() - a.date.getTime())\<close>: a stable sort,
  latest first.
\<close>

definition sortByDateDesc :: "attendanceRecord list \<Rightarrow> attendanceRecord list" where
  "sortByDateDesc records = sort_key (\<lambda>r. - date r) records"

definition summarize :: "int \<Rightarrow> nat \<Rightarrow> nat \<Rightarrow> string \<times> attendanceRecord list \<Rightarrow> summaryRow" where
  "summarize currentYear currentQuarter currentMonth entry =
     (case entry of
        (b, records) \<Rightarrow>
          (case foldl (tally currentMonth currentQuarter currentYear) ([], [], [], 0) records of
             (uniqueEvents, monthEvents, quarterEvents, volunteers) \<Rightarrow>
               (let mostRecentRecord = (case sortByDateDesc records of [] \<Rightarrow> None | r # _ \<Rightarrow> Some r)
                in \<lparr>bel = b,
                    fullName = (case mostRecentRecord of None \<Rightarrow> JStr [] | Some r \<Rightarrow> name r),
                    firstNamePlaceholder = [],
                    lastNamePlaceholder = [],
                    quarterEventCount = length quarterEvents,
                    monthEventCount = length monthEvents,
                    volunteerCount = volunteers,
                    lastDate = (case mostRecentRecord of None \<Rightarrow> None | Some r \<Rightarrow> Some (date r)),
                    lastEventName = (case mostRecentRecord of None \<Rightarrow> []
                                     | Some r \<Rightarrow> takeWhile (\<lambda>c. c \<noteq> CHR ''-'') (eventKey r)),
                    totalUniqueEvents = length uniqueEvents\<rparr>)))"

text \<open>
  The function on the formatted rows; \<open>now\<close> is the time value of \<open>new Date()\<close>.
\<close>

definition attendanceStats :: "runtime \<Rightarrow> int \<Rightarrow> row list \<Rightarrow> summaryRow list" where
  "attendanceStats rt now rawData =
     (if rawData = [] then []
      else
        (let currentMonth = getMonth rt now;
             currentQuarter = currentMonth div 3;
             currentYear = getFullYear rt now
         in map (summarize currentYear currentQuarter currentMonth) (groupRows rt rawData)))"

definition calculateAttendanceStats ::
  "runtime \<Rightarrow> int \<Rightarrow> sheets option \<Rightarrow> (error + summaryRow list) option" where
  "calculateAttendanceStats rt now data =
     (case matchOrAssignBelCodes rt data of
        None \<Rightarrow> None
      | Some (Inl e) \<Rightarrow> Some (Inl e)
      | Some (Inr rawData) \<Rightarrow> Some (Inr (attendanceStats rt now rawData)))"

section \<open>updateActivityLevels\<close>

text \<open>
  \<open>Number(v)\<close>. On a string: white space is trimmed; the empty string is 0; a binary,
  octal or hexadecimal literal, or an optionally signed decimal literal or
  \<open>Infinity\<close>, is the double nearest to its value; anything else is \<open>NaN\<close>.
\<close>

definition radixDigit :: "char \<Rightarrow> nat" where
  "radixDigit c = length (takeWhile (\<lambda>d. d \<noteq> asciiLower c) ''0123456789abcdef'')"

definition radixLiteral :: "nat \<Rightarrow> string \<Rightarrow> rat option" where
  "radixLiteral b ds =
     (if ds \<noteq> [] \<and> list_all (\<lambda>c. radixDigit c < b) ds
      then Some (of_int (foldl (\<lambda>n c. int b * n + int (radixDigit c)) 0 ds)) else None)"

definition nonDecimalLiteral :: "string \<Rightarrow> rat option" where
  "nonDecimalLiteral t =
     (case t of
        c0 # c1 # ds \<Rightarrow>
          (if c0 \<noteq> CHR ''0'' then None
           else if c1 = CHR ''x'' \<or> c1 = CHR ''X'' then radixLiteral 16 ds
           else if c1 = CHR ''o'' \<or> c1 = CHR ''O'' then radixLiteral 8 ds
           else if c1 = CHR ''b'' \<or> c1 = CHR ''B'' then radixLiteral 2 ds
           else None)
      | _ \<Rightarrow> None)"

definition exponentPart :: "string \<Rightarrow> int option" where
  "exponentPart s =
     (case s of
        [] \<Rightarrow> Some 0
      | c # r \<Rightarrow>
          (if c = CHR ''e'' \<or> c = CHR ''E'' then
             (let neg = (r \<noteq> [] \<and> hd r = CHR ''-'');
                  ds = (if r \<noteq> [] \<and> (hd r = CHR ''-'' \<or> hd r = CHR ''+'') then tl r else r)
              in if allDigits ds
                 then Some (if neg then - digitsValue ds else digitsValue ds)
                 else None)
           else None))"

definition unsignedDecimal :: "string \<Rightarrow> rat option" where
  "unsignedDecimal s =
     (let ip = takeWhile isDigit s;
          r1 = dropWhile isDigit s;
          dot = (r1 \<noteq> [] \<and> hd r1 = CHR ''.'');
          fp = (if dot then takeWhile isDigit (tl r1) else []);
          r2 = (if dot then dropWhile isDigit (tl r1) else r1)
      in if ip = [] \<and> fp = [] then None
         else (case exponentPart r2 of
                 None \<Rightarrow> None
               | Some e \<Rightarrow>
                   (let m = of_int (digitsValue (ip @ fp)) / 10 ^ length fp
                    in Some (if e \<ge> 0 then m * 10 ^ nat e else m / 10 ^ nat (- e)))))"

definition stringToNumber :: "string \<Rightarrow> jsnum" where
  "stringToNumber s =
     (let t = trim s
      in if t = [] then Fin 0
         else (case nonDecimalLiteral t of
                 Some q \<Rightarrow> roundDouble q
               | None \<Rightarrow>
                   (let neg = (hd t = CHR ''-'');
                        u = (if hd t = CHR ''-'' \<or> hd t = CHR ''+'' then tl t else t)
                    in if u = ''Infinity'' then (if neg then NegInf else PosInf)
                       else (case unsignedDecimal u of
                               None \<Rightarrow> NaN
                             | Some q \<Rightarrow> roundDouble (if neg then - q else q)))))"

definition toNumber :: "jsval \<Rightarrow> jsnum" where
  "toNumber v =
     (case v of
        JUndefined \<Rightarrow> NaN
      | JNull \<Rightarrow> Fin 0
      | JBool b \<Rightarrow> Fin (if b then 1 else 0)
      | JNum n \<Rightarrow> n
      | JStr s \<Rightarrow> stringToNumber s
      | JDate None \<Rightarrow> NaN
      | JDate (Some t) \<Rightarrow> Fin (of_int t))"

text \<open>
  The body of the loop for one row. \<open>raw.toString()\<close> throws a \<open>TypeError\<close> on \<open>null\<close>
  and \<open>undefined\<close>; it is reached unless \<open>raw === ""\<close>.
\<close>

definition effectivelyBlankOrInvalid :: "runtime \<Rightarrow> jsval \<Rightarrow> error + bool" where
  "effectivelyBlankOrInvalid rt raw =
     (if raw = JStr [] then Inr True
      else if raw = JNull \<or> raw = JUndefined then Inl TypeError
      else Inr (trim (jsString rt raw) \<noteq> [] \<and> isNaN (toNumber raw)))"

definition activityLevel :: "runtime \<Rightarrow> jsval \<Rightarrow> jsval \<Rightarrow> error + string" where
  "activityLevel rt rawValueE rawValueK =
     (let numE = toNumber rawValueE;
          numK = toNumber rawValueK;
          valEForSum = (if isNaN numE then Fin 0 else numE);
          valKForSum = (if isNaN numK then Fin 0 else numK);
          combinedCount = jsAdd valEForSum valKForSum
      in case effectivelyBlankOrInvalid rt rawValueE of
           Inl e \<Rightarrow> Inl e
         | Inr eBlank \<Rightarrow>
             (case effectivelyBlankOrInvalid rt rawValueK of
                Inl e \<Rightarrow> Inl e
              | Inr kBlank \<Rightarrow>
                  Inr (if eBlank \<and> kBlank then []
                       else if jsGe combinedCount 12 then ''Core''
                       else if jsGe combinedCount 3 then ''Active''
                       else ''Inactive'')))"

text \<open>
  The loop over the rows of columns E and K, which are read over the same range of
  rows; the result is the column written to L.
\<close>

fun activityLevels :: "runtime \<Rightarrow> (jsval \<times> jsval) list \<Rightarrow> error + string list" where
  "activityLevels rt [] = Inr []"
| "activityLevels rt ((e, k) # rest) =
     (case activityLevel rt e k of
        Inl err \<Rightarrow> Inl err
      | Inr l \<Rightarrow> (case activityLevels rt rest of Inl err \<Rightarrow> Inl err | Inr ls \<Rightarrow> Inr (l # ls)))"

definition updateActivityLevels :: "runtime \<Rightarrow> jsval list \<Rightarrow> jsval list \<Rightarrow> error + string list" where
  "updateActivityLevels rt valuesE valuesK = activityLevels rt (zip valuesE valuesK)"

text \<open>
  The values a sheet can hold in a cell: a string (empty for an empty cell), a finite
  number, which is a double, a boolean or a valid date, whose time value is at most
  \<open>8.64e15\<close> in absolute value.
\<close>

definition isCell :: "jsval \<Rightarrow> bool" where
  "isCell v =
     (case v of
        JStr s \<Rightarrow> True
      | JNum (Fin q) \<Rightarrow> roundDouble q = Fin q
      | JBool b \<Rightarrow> True
      | JDate (Some t) \<Rightarrow> \<bar>t\<bar> \<le> 8640000000000000
      | _ \<Rightarrow> False)"

section \<open>The specification's notions\<close>

subsection \<open>Identity resolution\<close>

text \<open>
  The specification describes steps 1 and 2 as \<open>buildMapping\<close> over an ordered list of
  observations (match key, raw id). These definitions follow the specification's
  words, to be compared with \<open>collectIds\<close>. A directory row is an observation when it
  has its three columns and a name; an attendance row when it has its two columns.
\<close>

type_synonym observation = "string option \<times> jsval"

definition directoryObservations :: "runtime \<Rightarrow> row list \<Rightarrow> observation list" where
  "directoryObservations rt data =
     map (\<lambda>r. (normalize rt (idx r 2), idx r 1))
       (filter (\<lambda>r. length r > 2 \<and> truthyName (normalize rt (idx r 2))) (dataRows data))"

definition attendanceObservations :: "runtime \<Rightarrow> row list \<Rightarrow> observation list" where
  "attendanceObservations rt data =
     map (\<lambda>r. (normalize rt (idx r 1), idx r 0)) (filter (\<lambda>r. length r > 1) (dataRows data))"

definition observations :: "runtime \<Rightarrow> sheets \<Rightarrow> observation list" where
  "observations rt d =
     directoryObservations rt (dData d) @ attendanceObservations rt (eData d)
     @ attendanceObservations rt (sData d)"

text \<open>
  ``If \<open>extractId\<close> yields a value, record it into \<open>usedIds\<close>; if the \<open>matchKey\<close> is not
  yet mapped, map it to this id.''
\<close>

definition recordObservation :: "idmaps \<Rightarrow> observation \<Rightarrow> idmaps" where
  "recordObservation m ob =
     (case extractNumericBel (snd ob) of
        None \<Rightarrow> m
      | Some n \<Rightarrow>
          \<lparr>belMap = (if truthyName (fst ob) \<and> \<not> mapHas (belMap m) (the (fst ob))
                     then mapSet (the (fst ob)) n (belMap m) else belMap m),
           allUsedCodes = setAdd n (allUsedCodes m)\<rparr>)"

definition buildMapping :: "observation list \<Rightarrow> idmaps" where
  "buildMapping obs = foldl recordObservation \<lparr>belMap = [], allUsedCodes = []\<rparr> obs"

text \<open>The identifiers the observations carry, and those carried together with a name.\<close>

definition observedIds :: "observation list \<Rightarrow> jsnum list" where
  "observedIds obs = List.map_filter (\<lambda>ob. extractNumericBel (snd ob)) obs"

definition namedIds :: "observation list \<Rightarrow> (string \<times> jsnum) list" where
  "namedIds obs =
     List.map_filter
       (\<lambda>ob. if truthyName (fst ob) then map_option (Pair (the (fst ob))) (extractNumericBel (snd ob))
             else None)
       obs"

subsection \<open>The activity classifier\<close>

text \<open>
  ``Blank or non-numeric text'': a cell of text that is blank, with nothing in it or
  nothing but white space, or that \<open>Number\<close> turns into \<open>NaN\<close>. The combined count
  treats an input that is not a number as 0.
\<close>

definition blankOrNonNumericText :: "jsval \<Rightarrow> bool" where
  "blankOrNonNumericText v =
     (case v of JStr s \<Rightarrow> trim s = [] \<or> stringToNumber s = NaN | _ \<Rightarrow> False)"

text \<open>A cell of text that has white space in it and nothing else.\<close>

definition whiteSpaceOnly :: "jsval \<Rightarrow> bool" where
  "whiteSpaceOnly v = (case v of JStr s \<Rightarrow> s \<noteq> [] \<and> trim s = [] | _ \<Rightarrow> False)"

definition valueForSum :: "jsval \<Rightarrow> jsnum" where
  "valueForSum v = (if isNaN (toNumber v) then Fin 0 else toNumber v)"

definition combinedCount :: "jsval \<Rightarrow> jsval \<Rightarrow> jsnum" where
  "combinedCount e k = jsAdd (valueForSum e) (valueForSum k)"

subsection \<open>Aggregation\<close>

text \<open>
  The events that survive the first loop, each with the key of its identity, and the
  surviving events of one identity, in input order.
\<close>

definition survivingEntries :: "runtime \<Rightarrow> row list \<Rightarrow> (string \<times> attendanceRecord) list" where
  "survivingEntries rt rawData = List.map_filter (attendanceEntry rt) rawData"

definition recordsOf :: "string \<Rightarrow> (string \<times> attendanceRecord) list \<Rightarrow> attendanceRecord list" where
  "recordsOf k es = map snd (filter (\<lambda>e. fst e = k) es)"

text \<open>
  The recurring-service test and the two parts of the name-and-id key, on a cell of any
  type.
\<close>

definition sundayServiceName :: "jsval \<Rightarrow> bool" where
  "sundayServiceName v = (case v of JStr s \<Rightarrow> matchesSundayService s | _ \<Rightarrow> False)"

definition keyPart :: "string \<Rightarrow> jsval \<Rightarrow> string" where
  "keyPart unknown v = (case v of JStr s \<Rightarrow> s | _ \<Rightarrow> unknown)"

text \<open>What a summary row says apart from the name and the event of the latest record.\<close>

definition countsOf :: "summaryRow \<Rightarrow> string \<times> nat \<times> nat \<times> nat \<times> nat \<times> int option" where
  "countsOf sr =
     (bel sr, quarterEventCount sr, monthEventCount sr, volunteerCount sr, totalUniqueEvents sr,
      lastDate sr)"

section \<open>A concrete host: UTC and ISO dates\<close>

text \<open>
  An instance of the host's built-ins, used to run the model on concrete sheets: the
  script's time zone is UTC, and a string is a date only in the form \<open>YYYY-MM-DD\<close>.
\<close>

definition civilFromDays :: "int \<Rightarrow> int \<times> int \<times> int" where
  "civilFromDays z0 =
     (let z = z0 + 719468;
          era = z div 146097;
          doe = z mod 146097;
          yoe = (doe - doe div 1460 + doe div 36524 - doe div 146096) div 365;
          doy = doe - (365 * yoe + yoe div 4 - yoe div 100);
          mp = (5 * doy + 2) div 153;
          d = doy - (153 * mp + 2) div 5 + 1;
          m = (if mp < 10 then mp + 3 else mp - 9)
      in (yoe + era * 400 + (if m \<le> 2 then 1 else 0), m, d))"

definition daysFromCivil :: "int \<Rightarrow> int \<Rightarrow> int \<Rightarrow> int" where
  "daysFromCivil y0 m d =
     (let y = (if m \<le> 2 then y0 - 1 else y0);
          era = y div 400;
          yoe = y mod 400;
          doy = (153 * (if m > 2 then m - 3 else m + 9) + 2) div 5 + d - 1;
          doe = yoe * 365 + yoe div 4 - yoe div 100 + doy
      in era * 146097 + doe - 719468)"

definition msPerDay :: int where
  "msPerDay = 86400000"

definition padLeft :: "nat \<Rightarrow> string \<Rightarrow> string" where
  "padLeft n s = replicate (n - length s) CHR ''0'' @ s"

definition utcParseDate :: "string \<Rightarrow> int option" where
  "utcParseDate s =
     (if length s = 10 \<and> s ! 4 = CHR ''-'' \<and> s ! 7 = CHR ''-''
         \<and> list_all isDigit (take 4 s) \<and> list_all isDigit (take 2 (drop 5 s))
         \<and> list_all isDigit (drop 8 s) then
        (let y = digitsValue (take 4 s);
             m = digitsValue (take 2 (drop 5 s));
             d = digitsValue (drop 8 s)
         in if civilFromDays (daysFromCivil y m d) = (y, m, d)
            then Some (daysFromCivil y m d * msPerDay) else None)
      else None)"

definition utcGetMonth :: "int \<Rightarrow> nat" where
  "utcGetMonth t = nat (fst (snd (civilFromDays (t div msPerDay))) - 1)"

definition utcGetFullYear :: "int \<Rightarrow> int" where
  "utcGetFullYear t = fst (civilFromDays (t div msPerDay))"

definition utcToDateString :: "int \<Rightarrow> string" where
  "utcToDateString t =
     (let day = t div msPerDay;
          (y, m, d) = civilFromDays day
      in [''Sun'', ''Mon'', ''Tue'', ''Wed'', ''Thu'', ''Fri'', ''Sat''] ! nat ((day + 4) mod 7)
         @ '' ''
         @ [''Jan'', ''Feb'', ''Mar'', ''Apr'', ''May'', ''Jun'', ''Jul'', ''Aug'', ''Sep'', ''Oct'',
            ''Nov'', ''Dec''] ! nat (m - 1)
         @ '' '' @ padLeft 2 (showDigits d)
         @ '' '' @ (if y < 0 then ''-'' else []) @ padLeft 4 (showDigits \<bar>y\<bar>))"

definition utcDateToString :: "int \<Rightarrow> string" where
  "utcDateToString t =
     (let s = (t mod msPerDay) div 1000
      in utcToDateString t @ '' '' @ padLeft 2 (showDigits (s div 3600)) @ '':''
         @ padLeft 2 (showDigits (s div 60 mod 60)) @ '':'' @ padLeft 2 (showDigits (s mod 60))
         @ '' GMT+0000 (Coordinated Universal Time)'')"

text \<open>
  For a number that is not an integer below \<open>10^21\<close> the sample host prints the
  decimal expansion with at most 17 digits after the point (the engine prints the
  shortest decimal that reads back as the same double; the sample runs print no such
  number). \<open>fractionDigits\<close> gives the digits after the decimal point, at most \<open>n\<close>
  of them.
\<close>

fun fractionDigits :: "nat \<Rightarrow> rat \<Rightarrow> string" where
  "fractionDigits 0 q = []"
| "fractionDigits (Suc n) q =
     (if q = 0 then []
      else (''0123456789'' ! nat \<lfloor>q * 10\<rfloor>) # fractionDigits n (q * 10 - of_int \<lfloor>q * 10\<rfloor>))"

definition decimalToString :: "rat \<Rightarrow> string" where
  "decimalToString q =
     (if q < 0 then ''-'' else []) @ showDigits \<lfloor>\<bar>q\<bar>\<rfloor> @ ''.''
     @ fractionDigits 17 (\<bar>q\<bar> - of_int \<lfloor>\<bar>q\<bar>\<rfloor>)"

definition utcRuntime :: runtime where
  "utcRuntime =
     \<lparr>parseDate = utcParseDate,
      getMonth = utcGetMonth,
      getFullYear = utcGetFullYear,
      toDateString = utcToDateString,
      dateToString = utcDateToString,
      numberToString = decimalToString\<rparr>"

section \<open>Sample data\<close>

text \<open>
  Sample sheets: the directory knows Jane Doe as 1042; the event sheet has rows for
  her and for a new person, the service sheet a row for another new person.
\<close>

definition sampleSheets :: sheets where
  "sampleSheets =
     \<lparr>sData =
        [[JStr ''BEL'', JStr ''Full Name'', JStr ''First'', JStr ''Last'', JStr ''Timestamp'',
          JStr ''Status'', JStr ''Email'', JStr ''Notes''],
         [JStr [], JStr ''Other Person'', JStr ''Other'', JStr ''Person'', JStr ''2024-03-17'',
          JStr ''Present'', JStr ''other@example.org'', JStr []]],
      eData =
        [[JStr ''BEL'', JStr ''Full Name'', JStr ''Event'', JStr ''ID'', JStr ''First'', JStr ''Last'',
          JStr ''Email'', JStr ''Phone'', JStr ''Form'', JStr ''Role'', JStr ''Timestamp''],
         [JStr [], JStr ''JANE DOE'', JStr ''Picnic'', JStr ''E1'', JStr ''Jane'', JStr ''Doe'',
          JStr ''jane@example.org'', JStr [], JStr ''Form A'', JStr ''Volunteer'',
          JStr ''2024-03-10''],
         [JStr [], JStr ''New Person'', JStr ''Youth sunday service'', JStr ''E2'', JStr ''New'',
          JStr ''Person'', JStr ''new@example.org'', JStr [], JStr ''Form A'', JStr [],
          JStr ''2024-03-17'']],
      dData =
        [[JStr ''Timestamp'', JStr ''BEL'', JStr ''Full Name''],
         [JStr ''2024-01-01'', JStr ''1042'', JStr ''Jane Doe'']]\<rparr>"


text \<open>
  Sheets in which one person has a different identifier in each source: 1001 in the
  directory, 2002 in the event sheet, 3003 in the service sheet.
\<close>

definition conflictSheets :: sheets where
  "conflictSheets =
     \<lparr>sData =
        [[JStr ''BEL'', JStr ''Full Name''],
         [JNum (Fin 3003), JStr ''jane doe'', JStr ''Jane'', JStr ''Doe'', JStr ''2024-03-17'',
          JStr ''Present'', JStr [], JStr []]],
      eData =
        [[JStr ''BEL'', JStr ''Full Name''],
         [JStr ''2002'', JStr '' JANE DOE '', JStr ''Picnic'', JStr ''E1'', JStr ''Jane'',
          JStr ''Doe'', JStr [], JStr [], JStr [], JStr [], JStr ''2024-03-10'']],
      dData =
        [[JStr ''Timestamp'', JStr ''BEL'', JStr ''Full Name''],
         [JStr [], JStr ''1001'', JStr ''Jane Doe'']]\<rparr>"





text \<open>
  Sample formatted rows: identity 1042 at a picnic in March 2024 as a volunteer and at
  a service in December 2023; identity 1043 at an event whose name contains the
  service's name in lower case; identity 1044 with a timestamp that is not a date.
  The aggregation time is 20 March 2024.
\<close>

definition sampleEvents :: "row list" where
  "sampleEvents =
     [[JNum (Fin 1042), JStr ''Jane Doe'', JStr ''Picnic'', JStr ''E1'', JStr [], JStr [], JStr [],
       JStr [], JStr [], JStr ''Volunteer'', JStr ''2024-03-10''],
      [JNum (Fin 1044), JStr ''No Date'', JStr ''Picnic'', JStr ''E1'', JStr [], JStr [], JStr [],
       JStr [], JStr [], JStr [], JStr ''soon''],
      [JNum (Fin 1042), JStr ''Jane D'', JStr ''Sunday Service'', JStr ''Service'', JStr [], JStr [],
       JStr [], JStr [], JStr [], JStr [], JStr ''2023-12-24''],
      [JNum (Fin 1043), JStr ''New Person'', JStr ''Youth sunday service'', JStr ''E2'', JStr [],
       JStr [], JStr [], JStr [], JStr [], JStr [], JStr ''2024-03-17'']]"

definition sampleNow :: int where
  "sampleNow = 1710892800000"

definition sampleSummary :: "summaryRow list" where
  "sampleSummary =
     [\<lparr>bel = ''1042'', fullName = JStr ''Jane Doe'', firstNamePlaceholder = [],
       lastNamePlaceholder = [], quarterEventCount = 1, monthEventCount = 1, volunteerCount = 1,
       lastDate = Some 1710028800000, lastEventName = ''Picnic'', totalUniqueEvents = 2\<rparr>,
      \<lparr>bel = ''1043'', fullName = JStr ''New Person'', firstNamePlaceholder = [],
       lastNamePlaceholder = [], quarterEventCount = 1, monthEventCount = 1, volunteerCount = 0,
       lastDate = Some 1710633600000, lastEventName = ''sunday service'', totalUniqueEvents = 1\<rparr>]"

section \<open>Properties of the rounding\<close>

lemma pow2_pos: "0 < pow2 k"
  by (simp add: pow2_def)

lemma bitLength_bounds:
  "0 < n \<Longrightarrow> 1 \<le> bitLength n \<and> 2 ^ nat (bitLength n - 1) \<le> n"
proof (induction n rule: bitLength.induct)
  case (1 n)
  show ?case
  proof (cases "n div 2 \<le> 0")
    case True
    with 1 have "n = 1" by linarith
    then show ?thesis
      by (simp add: bitLength.simps [of 1] bitLength.simps [of 0])
  next
    case False
    with 1 have ih: "1 \<le> bitLength (n div 2)" "2 ^ nat (bitLength (n div 2) - 1) \<le> n div 2"
      by auto
    have bl: "bitLength n = 1 + bitLength (n div 2)"
      using 1 by (subst bitLength.simps) simp
    have "nat (bitLength n - 1) = Suc (nat (bitLength (n div 2) - 1))"
      using ih(1) bl by simp
    then have "(2::int) ^ nat (bitLength n - 1) = 2 * 2 ^ nat (bitLength (n div 2) - 1)"
      by simp
    also have "\<dots> \<le> 2 * (n div 2)"
      using ih(2) by simp
    also have "\<dots> \<le> n"
      by simp
    finally show ?thesis
      using bl ih(1) by simp
  qed
qed

lemma roundHalfEven_of_int: "roundHalfEven (of_int m) = m"
  by (simp add: roundHalfEven_def)

lemma roundHalfEven_nonneg: "0 \<le> x \<Longrightarrow> 0 \<le> roundHalfEven x"
  by (simp add: roundHalfEven_def Let_def)

lemma floorLog2_of_int:
  assumes "0 < n"
  shows "floorLog2 (of_int n) = bitLength n - 1"
proof -
  have q: "quotient_of (of_int n) = (n, 1)"
    by (metis quotient_of_int Rat.of_int_def)
  have b1: "bitLength 1 = 1"
    by (simp add: bitLength.simps [of 1] bitLength.simps [of 0])
  from bitLength_bounds [OF assms] have "pow2 (bitLength n - 1) \<le> of_int n"
    by (simp add: pow2_def of_int_le_iff [symmetric] del: of_int_le_iff)
  then show ?thesis
    by (simp add: floorLog2_def q b1)
qed

text \<open>Rounding leaves every integer from 0 to \<open>2^53\<close> as it is.\<close>

lemma roundDouble_of_nat:
  assumes "n \<le> exactIntegerLimit"
  shows "roundDouble (of_nat n) = Fin (of_nat n)"
proof (cases "n = 0")
  case True
  then show ?thesis by (simp add: roundDouble_def)
next
  case False
  define N where "N = int n"
  from assms have "int n \<le> int (2 ^ 53)"
    unfolding exactIntegerLimit_def by (rule of_nat_mono)
  then have N: "0 < N" "N \<le> 2 ^ 53"
    using False by (simp_all add: N_def)
  define e where "e = bitLength N - 1"
  have fl: "floorLog2 (of_int N) = e"
    by (simp add: floorLog2_of_int N e_def)
  from bitLength_bounds [OF N(1)] have e: "0 \<le> e" "2 ^ nat e \<le> N"
    by (simp_all add: e_def)
  have e53: "e \<le> 53"
  proof (rule ccontr)
    assume "\<not> e \<le> 53"
    then have "54 \<le> nat e" by simp
    then have "(2::int) ^ 54 \<le> 2 ^ nat e"
      by (intro power_increasing) simp_all
    with e(2) N(2) show False by simp
  qed
  have big: "(of_int N :: rat) < pow2 1024"
  proof -
    have "(2::int) ^ 53 < 2 ^ 1024"
      by (intro power_strict_increasing) simp_all
    with N(2) have "N < 2 ^ 1024" by linarith
    then have "(of_int N :: rat) < of_int (2 ^ 1024)"
      by (simp only: of_int_less_iff)
    then show ?thesis by (simp add: pow2_def)
  qed
  have r: "of_int (roundHalfEven (of_int N / pow2 (e - 52))) * pow2 (e - 52) = (of_int N :: rat)"
  proof (cases "e \<le> 52")
    case True
    define k where "k = nat (52 - e)"
    have p: "pow2 (e - 52) = 1 / of_int (2 ^ k)"
      using True by (cases "e = 52") (simp_all add: pow2_def k_def)
    have "of_int N / pow2 (e - 52) = (of_int (N * 2 ^ k) :: rat)"
      by (simp add: p)
    then have "roundHalfEven (of_int N / pow2 (e - 52)) = N * 2 ^ k"
      by (simp only: roundHalfEven_of_int)
    then show ?thesis
      by (simp add: p)
  next
    case False
    with e53 have e: "e = 53" by simp
    with \<open>2 ^ nat e \<le> N\<close> N(2) have Nv: "N = 2 ^ 53" by simp
    have p: "pow2 (e - 52) = 2"
      by (simp add: e pow2_def)
    have "of_int N / pow2 (e - 52) = (of_int (2 ^ 52) :: rat)"
      by (simp add: p Nv)
    then have "roundHalfEven (of_int N / pow2 (e - 52)) = 2 ^ 52"
      by (simp only: roundHalfEven_of_int)
    then show ?thesis
      by (simp add: p Nv)
  qed
  have "roundDouble (of_int N) = Fin (of_int N)"
    using N(1) e(1) big r by (simp add: roundDouble_def Let_def fl max_def)
  then show ?thesis
    by (simp add: N_def)
qed

text \<open>Rounding a number that is not negative gives a number that is not negative.\<close>

lemma roundDouble_nonneg:
  assumes "0 \<le> q"
  shows "roundDouble q = PosInf \<or> (\<exists>r\<ge>0. roundDouble q = Fin r)"
proof (cases "q = 0")
  case True
  then show ?thesis by (simp add: roundDouble_def)
next
  case False
  with assms have pos: "0 < q" by simp
  define ulp where "ulp = pow2 (max (floorLog2 \<bar>q\<bar>) (- 1022) - 52)"
  have "0 \<le> \<bar>q\<bar> / ulp"
    using pow2_pos [of "max (floorLog2 \<bar>q\<bar>) (- 1022) - 52"] by (simp add: ulp_def)
  then have "0 \<le> roundHalfEven (\<bar>q\<bar> / ulp)"
    by (rule roundHalfEven_nonneg)
  then have "(0::rat) \<le> of_int (roundHalfEven (\<bar>q\<bar> / ulp)) * ulp"
    using pow2_pos [of "max (floorLog2 \<bar>q\<bar>) (- 1022) - 52"] by (simp add: ulp_def)
  with pos show ?thesis
    by (simp add: roundDouble_def Let_def ulp_def)
qed

lemma numOfNat_of_nat: "numOfNat n = Fin (of_nat n)"
  by (simp add: numOfNat_def)

lemma numOfNat_eq_iff: "numOfNat m = numOfNat n \<longleftrightarrow> m = n"
  by (simp add: numOfNat_def)

lemma jsGt_numOfNat: "jsGt (numOfNat a) (numOfNat b) \<longleftrightarrow> b < a"
  by (simp add: jsGt_def numOfNat_def)

lemma jsAdd_numOfNat_one:
  assumes "c + 1 \<le> exactIntegerLimit"
  shows "jsAdd (numOfNat c) (Fin 1) = numOfNat (c + 1)"
proof -
  have "jsAdd (numOfNat c) (Fin 1) = roundDouble (of_nat (c + 1))"
    by (simp add: jsAdd_def numOfNat_of_nat add.commute)
  with roundDouble_of_nat [OF assms] show ?thesis
    by (simp only: numOfNat_of_nat)
qed

text \<open>An integer of \<open>2^1024\<close> or more rounds to \<open>Infinity\<close>.\<close>

lemma bitLength_upper: "0 \<le> n \<Longrightarrow> n < 2 ^ nat (bitLength n)"
proof (induction n rule: bitLength.induct)
  case (1 n)
  show ?case
  proof (cases "n \<le> 0")
    case True
    with 1(2) show ?thesis
      by (simp add: bitLength.simps [of n])
  next
    case False
    with 1 have ih: "n div 2 < 2 ^ nat (bitLength (n div 2))"
      by simp
    have nonneg: "0 \<le> bitLength (n div 2)"
      by (cases "n div 2 \<le> 0")
        (use bitLength_bounds [of "n div 2"] in \<open>auto simp: bitLength.simps [of "n div 2"]\<close>)
    have bl: "bitLength n = 1 + bitLength (n div 2)"
      using False by (subst bitLength.simps) simp
    have "nat (bitLength n) = Suc (nat (bitLength (n div 2)))"
      using nonneg bl by simp
    then have "(2::int) ^ nat (bitLength n) = 2 * 2 ^ nat (bitLength (n div 2))"
      by simp
    moreover from ih have "n div 2 + 1 \<le> 2 ^ nat (bitLength (n div 2))"
      by simp
    then have "2 * (n div 2) + 2 \<le> 2 * 2 ^ nat (bitLength (n div 2))"
      by simp
    moreover have "n < 2 * (n div 2) + 2"
      by linarith
    ultimately show ?thesis
      by simp
  qed
qed

lemma roundHalfEven_ge_floor: "\<lfloor>x\<rfloor> \<le> roundHalfEven x"
  by (simp add: roundHalfEven_def Let_def)

lemma roundDouble_overflow:
  assumes "2 ^ 1024 \<le> N"
  shows "roundDouble (of_int N) = PosInf"
proof -
  have pos: "(0::int) < 2 ^ 1024"
    by simp
  with assms have N: "0 < N" by linarith
  define e where "e = bitLength N - 1"
  have fl: "floorLog2 (of_int N) = e"
    by (simp add: floorLog2_of_int N e_def)
  from bitLength_bounds [OF N] have e: "0 \<le> e" "2 ^ nat e \<le> N"
    by (simp_all add: e_def)
  have e1024: "1024 \<le> e"
  proof (rule ccontr)
    assume "\<not> 1024 \<le> e"
    then have "nat (bitLength N) \<le> 1024"
      by (simp add: e_def)
    then have "(2::int) ^ nat (bitLength N) \<le> 2 ^ 1024"
      by (intro power_increasing) simp_all
    with bitLength_upper [of N] N assms show False
      by linarith
  qed
  define k where "k = nat (e - 52)"
  have split: "nat e = 52 + k"
    using e1024 by (simp add: k_def)
  have ulp: "pow2 (e - 52) = of_int (2 ^ k)"
    using e1024 by (simp add: pow2_def k_def)
  have "(2::int) ^ 52 * 2 ^ k \<le> N"
    using e(2) by (simp add: split power_add)
  then have "(of_int (2 ^ 52 * 2 ^ k) :: rat) \<le> of_int N"
    by (simp only: of_int_le_iff)
  then have "(of_int (2 ^ 52) :: rat) \<le> of_int N / of_int (2 ^ k)"
    by (simp add: pos_le_divide_eq)
  then have "2 ^ 52 \<le> \<lfloor>(of_int N :: rat) / of_int (2 ^ k)\<rfloor>"
    by (simp only: le_floor_iff)
  with roundHalfEven_ge_floor [of "of_int N / of_int (2 ^ k)"]
  have "2 ^ 52 \<le> roundHalfEven (of_int N / of_int (2 ^ k))"
    by linarith
  then have "(2::int) ^ 52 * 2 ^ k \<le> roundHalfEven (of_int N / of_int (2 ^ k)) * 2 ^ k"
    by (intro mult_right_mono) simp_all
  moreover have "(2::int) ^ 1024 \<le> 2 ^ 52 * 2 ^ k"
  proof -
    have "1024 \<le> 52 + k"
      using e1024 split by linarith
    then have "(2::int) ^ 1024 \<le> 2 ^ (52 + k)"
      by (intro power_increasing) simp_all
    then show ?thesis
      by (simp only: power_add)
  qed
  ultimately have "(2::int) ^ 1024 \<le> roundHalfEven (of_int N / of_int (2 ^ k)) * 2 ^ k"
    by linarith
  then have "(of_int (2 ^ 1024) :: rat)
      \<le> of_int (roundHalfEven (of_int N / of_int (2 ^ k)) * 2 ^ k)"
    by (simp only: of_int_le_iff)
  moreover have "pow2 1024 = of_int (2 ^ 1024)"
    by (simp add: pow2_def)
  ultimately
  have "pow2 1024 \<le> of_int (roundHalfEven (of_int N / pow2 (e - 52))) * pow2 (e - 52)"
    by (simp only: ulp of_int_mult)
  with N e(1) show ?thesis
    by (simp add: roundDouble_def Let_def fl max_def)
qed

section \<open>Properties of identity resolution\<close>

subsection \<open>The highest identifier found\<close>

lemma foldl_highest_ge:
  "(h0::nat) \<le> foldl (\<lambda>h code. if code > h then code else h) h0 codes
   \<and> (\<forall>u\<in>set codes. u \<le> foldl (\<lambda>h code. if code > h then code else h) h0 codes)"
proof (induction codes arbitrary: h0)
  case Nil
  show ?case by simp
next
  case (Cons c cs)
  from Cons.IH [of "if c > h0 then c else h0"] show ?case
    by (auto split: if_splits)
qed

lemma foldl_highest_mem:
  "foldl (\<lambda>h code. if code > h then code else h) (h0::nat) codes \<in> insert h0 (set codes)"
proof (induction codes arbitrary: h0)
  case Nil
  show ?case by simp
next
  case (Cons c cs)
  from Cons.IH [of "if c > h0 then c else h0"] show ?case
    by (auto split: if_splits)
qed


lemma foldl_jsGt_numOfNat:
  "foldl (\<lambda>h code. if jsGt code h then code else h) (numOfNat h0) (map numOfNat ns) =
     numOfNat (foldl (\<lambda>h code. if code > h then code else h) h0 ns)"
proof (induction ns arbitrary: h0)
  case Nil
  show ?case by simp
next
  case (Cons n ns)
  from Cons.IH [of "if n > h0 then n else h0"] show ?case
    by (cases "n > h0") (simp_all add: jsGt_numOfNat)
qed

lemma highestFound_numOfNat:
  "highestFound (map numOfNat ns) =
     numOfNat (foldl (\<lambda>h code. if code > h then code else h) 0 ns)"
  using foldl_jsGt_numOfNat [of 0 ns] by (simp add: highestFound_def numOfNat_def)

text \<open>
  In a run that counts exactly, the identifiers found are natural numbers with room
  above them for one increment per attendance row.
\<close>

lemma exact_ids_are_naturals:
  assumes "list_all (\<lambda>u. case u of Fin q \<Rightarrow> isInteger q \<and> 0 \<le> q \<and> q + of_nat k < 2 ^ 53
                            | _ \<Rightarrow> False) us"
  shows "\<exists>ns. us = map numOfNat ns \<and> (\<forall>n\<in>set ns. n + k < exactIntegerLimit)"
  using assms
proof (induction us)
  case Nil
  show ?case by simp
next
  case (Cons u us)
  then obtain ns where ns: "us = map numOfNat ns" "\<forall>n\<in>set ns. n + k < exactIntegerLimit"
    by auto
  from Cons.prems obtain q where q: "u = Fin q" "isInteger q" "0 \<le> q" "q + of_nat k < 2 ^ 53"
    by (cases u) auto
  define n where "n = nat \<lfloor>q\<rfloor>"
  from q(2) have "of_int \<lfloor>q\<rfloor> = q"
    unfolding isInteger_def .
  moreover from q(3) have "(of_nat n :: rat) = of_int \<lfloor>q\<rfloor>"
    by (simp add: n_def)
  ultimately have qn: "q = of_nat n"
    by metis
  then have u: "u = numOfNat n"
    by (simp add: q(1) numOfNat_of_nat)
  from q(4) have "(of_nat (n + k) :: rat) < of_nat (2 ^ 53)"
    by (simp add: qn)
  then have "n + k < exactIntegerLimit"
    unfolding exactIntegerLimit_def by (simp only: of_nat_less_iff)
  with ns u have "u # us = map numOfNat (n # ns) \<and> (\<forall>m\<in>set (n # ns). m + k < exactIntegerLimit)"
    by simp
  then show ?case by (rule exI [of _ "n # ns"])
qed

lemma idsStayExact_naturals:
  assumes "idsStayExact rt d"
  shows "length (attendanceDataRaw d) < exactIntegerLimit
    \<and> (\<exists>ns. allUsedCodes (collectIds rt d) = map numOfNat ns
          \<and> (\<forall>n\<in>set ns. n + length (attendanceDataRaw d) < exactIntegerLimit))"
proof -
  from assms have both: "(of_nat (length (attendanceDataRaw d)) :: rat) < 2 ^ 53
      \<and> list_all (\<lambda>u. case u of
            Fin q \<Rightarrow> isInteger q \<and> 0 \<le> q \<and> q + of_nat (length (attendanceDataRaw d)) < 2 ^ 53
          | _ \<Rightarrow> False) (allUsedCodes (collectIds rt d))"
    unfolding idsStayExact_def Let_def of_int_of_nat_eq .
  then have "(of_nat (length (attendanceDataRaw d)) :: rat) < of_nat (2 ^ 53)"
    by simp
  then have "length (attendanceDataRaw d) < exactIntegerLimit"
    unfolding exactIntegerLimit_def by (simp only: of_nat_less_iff)
  moreover from both exact_ids_are_naturals
  have "\<exists>ns. allUsedCodes (collectIds rt d) = map numOfNat ns
          \<and> (\<forall>n\<in>set ns. n + length (attendanceDataRaw d) < exactIntegerLimit)"
    by blast
  ultimately show ?thesis
    by simp
qed

subsection \<open>The invariants of the generator\<close>

lemma counterAbove_mono: "counterAbove k st \<Longrightarrow> j \<le> k \<Longrightarrow> counterAbove j st"
  by (auto simp: counterAbove_def)

lemma counterAbove_fresh: "counterAbove k st \<Longrightarrow> codeCounter st \<notin> set (allUsedCodes (ids st))"
  by (auto simp: counterAbove_def numOfNat_eq_iff)

lemma initGen_invariants:
  assumes "idsStayExact rt d"
  shows "counterAbove (length (attendanceDataRaw d)) (initGen (collectIds rt d))"
    and "logInv (initGen (collectIds rt d))"
proof -
  let ?L = "length (attendanceDataRaw d)"
  from idsStayExact_naturals [OF assms] obtain ns where
    L: "?L < exactIntegerLimit" and
    ns: "allUsedCodes (collectIds rt d) = map numOfNat ns"
        "\<forall>n\<in>set ns. n + ?L < exactIntegerLimit"
    by blast
  define h where "h = foldl (\<lambda>h code. if code > h then code else h) (0::nat) ns"
  have hf: "highestFound (allUsedCodes (collectIds rt d)) = numOfNat h"
    by (simp add: ns(1) highestFound_numOfNat h_def)
  have "h \<in> insert 0 (set ns)"
    unfolding h_def by (rule foldl_highest_mem)
  with L ns(2) have room: "h + 1 + ?L \<le> exactIntegerLimit"
    by auto
  then have cc: "jsAdd (numOfNat h) (Fin 1) = numOfNat (h + 1)"
    by (intro jsAdd_numOfNat_one) simp
  have above: "\<forall>n\<in>set ns. n < h + 1"
    using foldl_highest_ge [of 0 ns] by (auto simp: h_def less_Suc_eq_le)
  have counter: "codeCounter (initGen (collectIds rt d)) = numOfNat (h + 1)"
    by (simp add: initGen_def hf cc)
  have used: "\<forall>u\<in>set (allUsedCodes (ids (initGen (collectIds rt d)))). \<exists>n<h + 1. u = numOfNat n"
    using above by (auto simp: initGen_def ns(1))
  show "counterAbove ?L (initGen (collectIds rt d))"
    unfolding counterAbove_def
    by (rule exI [of _ "h + 1"]) (use room counter used in simp)
  show "logInv (initGen (collectIds rt d))"
    unfolding logInv_def
    by (rule exI [of _ "h + 1"], rule exI [of _ h], rule exI [of _ "[]"])
      (simp add: initGen_def hf cc)
qed

lemma generateBEL_fresh:
  "codeCounter st \<notin> set (allUsedCodes (ids st)) \<Longrightarrow>
   generateBEL st =
     Some (Inr (codeCounter st,
                st\<lparr>ids := (ids st)\<lparr>allUsedCodes := allUsedCodes (ids st) @ [codeCounter st]\<rparr>,
                   codeCounter := jsAdd (codeCounter st) (Fin 1)\<rparr>))"
  by (subst generateBEL.simps) (simp add: setAdd_def)

lemma counterAbove_results: "counterAbove k (st\<lparr>results := x\<rparr>) = counterAbove k st"
  by (simp add: counterAbove_def)

lemma logInv_results: "logInv (st\<lparr>results := x\<rparr>) = logInv st"
  by (simp add: logInv_def)

lemma assignRow_mapped:
  assumes "\<not> length r < 2" and "truthyName (normalize rt (idx r 1))"
    and "map_of (belMap (ids st)) (the (normalize rt (idx r 1))) = Some n"
  shows "assignRow rt st r =
           Some (Inr (case formatRow n r of None \<Rightarrow> st
                      | Some formattedRow \<Rightarrow> st\<lparr>results := results st @ [formattedRow]\<rparr>))"
  using assms by (simp add: assignRow_def mapHas_def mapGet_def split: option.splits)

lemma assignRow_generated:
  assumes "\<not> length r < 2" and "truthyName (normalize rt (idx r 1))"
    and "map_of (belMap (ids st)) (the (normalize rt (idx r 1))) = None"
    and "codeCounter st \<notin> set (allUsedCodes (ids st))"
    and "s2 = st\<lparr>ids := \<lparr>belMap = belMap (ids st) @ [(the (normalize rt (idx r 1)), codeCounter st)],
                        allUsedCodes = allUsedCodes (ids st) @ [codeCounter st]\<rparr>,
                codeCounter := jsAdd (codeCounter st) (Fin 1),
                generatedLog := generatedLog st @ [codeCounter st]\<rparr>"
  shows "assignRow rt st r =
           Some (Inr (case formatRow (codeCounter st) r of None \<Rightarrow> s2
                      | Some formattedRow \<Rightarrow> s2\<lparr>results := results s2 @ [formattedRow]\<rparr>))"
  using assms
  by (simp add: assignRow_def generateBEL_fresh mapHas_def mapSet_def
        split: option.splits)

lemma assignRow_inv:
  assumes ca: "counterAbove (Suc k) st" and li: "logInv st"
  shows "\<exists>st'. assignRow rt st r = Some (Inr st') \<and> counterAbove k st' \<and> logInv st'
           \<and> highestFoundNum st' = highestFoundNum st"
proof (cases "length r < 2 \<or> \<not> truthyName (normalize rt (idx r 1))")
  case True
  then have "assignRow rt st r = Some (Inr st)"
    by (auto simp: assignRow_def)
  with li counterAbove_mono [OF ca, of k] show ?thesis by simp
next
  case False
  then have len: "\<not> length r < 2" and nm: "truthyName (normalize rt (idx r 1))" by auto
  show ?thesis
  proof (cases "map_of (belMap (ids st)) (the (normalize rt (idx r 1)))")
    case (Some n)
    from assignRow_mapped [OF len nm Some] li counterAbove_mono [OF ca, of k] show ?thesis
      by (auto simp: counterAbove_results logInv_results split: option.splits)
  next
    case None
    define s2 where
      "s2 = st\<lparr>ids := \<lparr>belMap = belMap (ids st) @ [(the (normalize rt (idx r 1)), codeCounter st)],
                        allUsedCodes = allUsedCodes (ids st) @ [codeCounter st]\<rparr>,
                codeCounter := jsAdd (codeCounter st) (Fin 1),
                generatedLog := generatedLog st @ [codeCounter st]\<rparr>"
    from ca obtain c where c: "codeCounter st = numOfNat c" "c + Suc k \<le> exactIntegerLimit"
        "\<forall>u\<in>set (allUsedCodes (ids st)). \<exists>n<c. u = numOfNat n"
      by (auto simp: counterAbove_def)
    from li obtain c' h ns where l: "codeCounter st = numOfNat c'" "highestFoundNum st = numOfNat h"
        "generatedLog st = map numOfNat ns" "sorted_wrt (<) ns" "\<forall>g\<in>set ns. h < g \<and> g < c'"
        "if ns = [] then c' = h + 1 else hd ns = h + 1"
      by (auto simp: logInv_def)
    from c(1) l(1) have cc: "c' = c"
      by (simp add: numOfNat_eq_iff)
    from c(2) have next_counter: "jsAdd (numOfNat c) (Fin 1) = numOfNat (c + 1)"
      by (intro jsAdd_numOfNat_one) simp
    have ca2: "counterAbove k s2"
      unfolding counterAbove_def
    proof (rule exI [of _ "c + 1"], intro conjI ballI)
      show "codeCounter s2 = numOfNat (c + 1)"
        by (simp add: s2_def c(1) next_counter)
      show "c + 1 + k \<le> exactIntegerLimit"
        using c(2) by simp
      fix u
      assume "u \<in> set (allUsedCodes (ids s2))"
      then have "u = numOfNat c \<or> u \<in> set (allUsedCodes (ids st))"
        by (auto simp: s2_def c(1))
      with c(3) show "\<exists>n<c + 1. u = numOfNat n"
        by (auto simp: less_Suc_eq)
    qed
    have lt: "h < c"
      using l(5,6) cc by (cases ns) (auto split: if_splits)
    have hd: "hd (ns @ [c]) = h + 1"
      using l(6) cc by (cases ns) auto
    have li2: "logInv s2"
      unfolding logInv_def
    proof (rule exI [of _ "c + 1"], rule exI [of _ h], rule exI [of _ "ns @ [c]"], intro conjI)
      show "codeCounter s2 = numOfNat (c + 1)"
        by (simp add: s2_def c(1) next_counter)
      show "highestFoundNum s2 = numOfNat h"
        by (simp add: s2_def l(2))
      show "generatedLog s2 = map numOfNat (ns @ [c])"
        by (simp add: s2_def l(3) c(1))
      show "sorted_wrt (<) (ns @ [c])"
        using l(4,5) cc by (auto simp: sorted_wrt_append)
      show "\<forall>g\<in>set (ns @ [c]). h < g \<and> g < c + 1"
        using l(5) lt cc by (auto simp: less_Suc_eq)
      show "if ns @ [c] = [] then c + 1 = h + 1 else hd (ns @ [c]) = h + 1"
        using hd by simp
    qed
    have hf: "highestFoundNum s2 = highestFoundNum st"
      by (simp add: s2_def)
    from assignRow_generated [OF len nm None counterAbove_fresh [OF ca] s2_def] ca2 li2 hf
    show ?thesis
      by (auto simp: counterAbove_results logInv_results split: option.splits)
  qed
qed

lemma assignRows_inv:
  "counterAbove (length rs + k) st \<Longrightarrow> logInv st \<Longrightarrow>
   \<exists>st'. assignRows rt st rs = Some (Inr st') \<and> counterAbove k st' \<and> logInv st'
     \<and> highestFoundNum st' = highestFoundNum st"
proof (induction rs arbitrary: st)
  case Nil
  then show ?case by simp
next
  case (Cons r rs)
  from Cons.prems(1) have "counterAbove (Suc (length rs + k)) st" by simp
  from assignRow_inv [OF this Cons.prems(2), of rt r] obtain s1 where
    s1: "assignRow rt st r = Some (Inr s1)" "counterAbove (length rs + k) s1" "logInv s1"
        "highestFoundNum s1 = highestFoundNum st"
    by blast
  from Cons.IH [OF s1(2,3)] s1(1,4) show ?case by auto
qed


lemma runAssignment_inv:
  assumes "idsStayExact rt d"
  shows "\<exists>st. runAssignment rt d = Some (Inr st) \<and> counterAbove 0 st \<and> logInv st
     \<and> highestFoundNum st = highestFound (allUsedCodes (collectIds rt d))"
proof -
  from initGen_invariants(1) [OF assms]
  have "counterAbove (length (attendanceDataRaw d) + 0) (initGen (collectIds rt d))"
    by simp
  from assignRows_inv [OF this initGen_invariants(2) [OF assms], of rt]
  show ?thesis
    by (auto simp: runAssignment_def initGen_def)
qed







subsection \<open>A counter that cannot advance\<close>


subsection \<open>Steps 1 and 2 as a fold over observations\<close>

lemma directoryRow_observation:
  "directoryRow rt m r =
     (if length r > 2 \<and> truthyName (normalize rt (idx r 2))
      then recordObservation m (normalize rt (idx r 2), idx r 1) else m)"
  by (simp add: directoryRow_def recordObservation_def Let_def split: option.splits)

lemma attendanceIdRow_observation:
  "attendanceIdRow rt m r =
     (if length r > 1 then recordObservation m (normalize rt (idx r 1), idx r 0) else m)"
  by (auto simp: attendanceIdRow_def recordObservation_def Let_def split: option.splits)

lemma foldl_directoryRow:
  "foldl (directoryRow rt) m rows =
     foldl recordObservation m
       (map (\<lambda>r. (normalize rt (idx r 2), idx r 1))
          (filter (\<lambda>r. length r > 2 \<and> truthyName (normalize rt (idx r 2))) rows))"
  by (induction rows arbitrary: m) (simp_all add: directoryRow_observation)

lemma foldl_attendanceIdRow:
  "foldl (attendanceIdRow rt) m rows =
     foldl recordObservation m
       (map (\<lambda>r. (normalize rt (idx r 1), idx r 0)) (filter (\<lambda>r. length r > 1) rows))"
  by (induction rows arbitrary: m) (simp_all add: attendanceIdRow_observation)

lemma collectIds_buildMapping: "collectIds rt d = buildMapping (observations rt d)"
  by (simp add: collectIds_def buildMapping_def observations_def directoryObservations_def
      attendanceObservations_def attendanceDataRaw_def foldl_directoryRow foldl_attendanceIdRow)

lemma map_of_mapSet_new: "\<not> mapHas m k \<Longrightarrow> map_of (mapSet k v m) = (map_of m)(k \<mapsto> v)"
  by (auto simp: mapSet_def mapHas_def map_add_def fun_eq_iff split: option.splits)

lemma set_setAdd: "set (setAdd x xs) = insert x (set xs)"
  by (auto simp: setAdd_def)

lemma belMap_recordObservation:
  "map_of (belMap (recordObservation m ob)) = map_of (namedIds [ob]) ++ map_of (belMap m)"
  by (auto simp: recordObservation_def namedIds_def map_of_mapSet_new
      mapHas_def map_add_def fun_eq_iff split: option.splits)

lemma namedIds_Cons: "namedIds (ob # obs) = namedIds [ob] @ namedIds obs"
  by (simp add: namedIds_def split: option.splits)

lemma belMap_foldl_recordObservation:
  "map_of (belMap (foldl recordObservation m obs)) = map_of (namedIds obs) ++ map_of (belMap m)"
proof (induction obs arbitrary: m)
  case Nil
  show ?case by (simp add: namedIds_def)
next
  case (Cons ob obs)
  have "map_of (belMap (foldl recordObservation m (ob # obs))) =
      map_of (namedIds obs) ++ (map_of (namedIds [ob]) ++ map_of (belMap m))"
    by (simp add: Cons.IH belMap_recordObservation)
  also have "\<dots> = map_of (namedIds (ob # obs)) ++ map_of (belMap m)"
    by (subst namedIds_Cons) simp
  finally show ?case .
qed

lemma allUsedCodes_recordObservation:
  "set (allUsedCodes (recordObservation m ob)) = set (allUsedCodes m) \<union> set (observedIds [ob])"
  by (auto simp: recordObservation_def observedIds_def set_setAdd
      split: option.splits)

lemma observedIds_Cons: "observedIds (ob # obs) = observedIds [ob] @ observedIds obs"
  by (simp add: observedIds_def split: option.splits)

lemma allUsedCodes_foldl_recordObservation:
  "set (allUsedCodes (foldl recordObservation m obs)) = set (allUsedCodes m) \<union> set (observedIds obs)"
proof (induction obs arbitrary: m)
  case Nil
  show ?case by (simp add: observedIds_def)
next
  case (Cons ob obs)
  show ?case
    by (subst observedIds_Cons) (auto simp: Cons.IH allUsedCodes_recordObservation)
qed

lemma namedIds_append: "namedIds (xs @ ys) = namedIds xs @ namedIds ys"
  by (simp add: namedIds_def List.map_filter_def)

lemma namedIds_first:
  assumes "nm \<noteq> []" and "extractNumericBel raw = Some n"
    and "\<forall>ob\<in>set pre. fst ob = Some nm \<longrightarrow> extractNumericBel (snd ob) = None"
  shows "map_of (namedIds (pre @ (Some nm, raw) # post)) nm = Some n"
proof -
  have "map_of (namedIds pre) nm = None"
    using assms(3)
    by (induction pre)
      (auto simp: namedIds_def truthyName_def split: option.splits)
  moreover have "map_of (namedIds ((Some nm, raw) # post)) nm = Some n"
    using assms(1,2) by (simp add: namedIds_def truthyName_def)
  ultimately show ?thesis
    by (simp add: namedIds_append map_add_def)
qed

lemma map_of_mapSet: "map_of (mapSet k v m) = (map_of m)(k \<mapsto> v)"
proof (cases "mapHas m k")
  case False
  then show ?thesis by (rule map_of_mapSet_new)
next
  case True
  have "map_of (map (\<lambda>(k', v'). if k' = k then (k', v) else (k', v')) m) x =
      (if x = k \<and> map_of m k \<noteq> None then Some v else map_of m x)" for x
    by (induction m) (auto split: if_splits)
  with True show ?thesis
    by (auto simp: mapSet_def mapHas_def fun_eq_iff)
qed

subsection \<open>Runs on the sample sheets\<close>







subsection \<open>Freshness of generated identifiers\<close>







subsection \<open>The generator's first iteration\<close>




subsection \<open>extractNumericBel\<close>

lemma isDigit_not_space: "isDigit c \<Longrightarrow> \<not> isWhiteSpace c"
  by (auto simp: isDigit_def isWhiteSpace_def)

lemma isDigit_not_sign: "isDigit c \<Longrightarrow> c \<noteq> CHR ''-'' \<and> c \<noteq> CHR ''+''"
  by (auto simp: isDigit_def)

lemma foldl_digits_nonneg: "0 \<le> n \<Longrightarrow> 0 \<le> foldl (\<lambda>n c. 10 * n + digitVal c) n ds"
  by (induction ds arbitrary: n) (simp_all add: digitVal_def)

lemma digitsValue_nonneg: "0 \<le> digitsValue ds"
  by (simp add: digitsValue_def foldl_digits_nonneg)

lemma parseInt10_allDigits:
  assumes "allDigits s"
  shows "parseInt10 s = roundDouble (of_int (digitsValue s))"
proof -
  from assms obtain c cs where s: "s = c # cs" and c: "isDigit c" and all: "list_all isDigit s"
    by (cases s) (auto simp: allDigits_def)
  from all have tw: "takeWhile isDigit s = s"
    by (simp add: list_all_iff)
  from s c have dw: "dropWhile isWhiteSpace s = s"
    by (simp add: isDigit_not_space)
  have hd: "s \<noteq> []" "hd s \<noteq> CHR ''-''" "hd s \<noteq> CHR ''+''"
    using s isDigit_not_sign [OF c] by simp_all
  show ?thesis
    unfolding parseInt10_def Let_def dw using hd by (simp add: tw)
qed

lemma extractNumericBel_string:
  "extractNumericBel (JStr s) =
     (if allDigits (trim s) then Some (roundDouble (of_int (digitsValue (trim s)))) else None)"
proof (cases "allDigits (trim s)")
  case True
  have "(0::rat) \<le> of_int (digitsValue (trim s))"
    by (simp add: digitsValue_nonneg)
  from roundDouble_nonneg [OF this]
  have "\<not> isNaN (roundDouble (of_int (digitsValue (trim s))))
      \<and> jsGe (roundDouble (of_int (digitsValue (trim s)))) 0"
    by (auto simp: isNaN_def jsGe_def)
  with True show ?thesis
    by (simp add: extractNumericBel_def Let_def parseInt10_allDigits allDigits_def)
next
  case False
  then show ?thesis
    by (auto simp: extractNumericBel_def Let_def)
qed

lemma roundDouble_exact_integer:
  assumes "0 \<le> n" and "n \<le> 2 ^ 53"
  shows "roundDouble (of_int n) = Fin (of_int n)"
proof -
  from assms have "nat n \<le> exactIntegerLimit"
    by (simp add: exactIntegerLimit_def nat_le_iff)
  from roundDouble_of_nat [OF this] assms(1) show ?thesis
    by simp
qed

text \<open>
  C2, as amended: a string whose trimmed form is one or more decimal digits yields
  the double nearest to the integer that the digits spell: the integer itself when
  it is at most \<open>2^53\<close>, and \<open>Infinity\<close> when it is \<open>2^1024\<close> or more. A string whose
  trimmed form is empty or contains a character that is not a digit yields \<open>null\<close>;
  a number that is an integer and not negative is returned unchanged, any other
  number yields \<open>null\<close>; and a value that is neither a string nor a number yields
  \<open>null\<close>.
\<close>

theorem extractNumericBel_by_cases:
  "(trim s \<noteq> [] \<and> (\<forall>c\<in>set (trim s). isDigit c) \<longrightarrow>
      extractNumericBel (JStr s) = Some (roundDouble (of_int (digitsValue (trim s))))
      \<and> (digitsValue (trim s) \<le> 2 ^ 53 \<longrightarrow>
           extractNumericBel (JStr s) = Some (Fin (of_int (digitsValue (trim s)))))
      \<and> (2 ^ 1024 \<le> digitsValue (trim s) \<longrightarrow> extractNumericBel (JStr s) = Some PosInf))
   \<and> (trim s = [] \<or> (\<exists>c\<in>set (trim s). \<not> isDigit c) \<longrightarrow> extractNumericBel (JStr s) = None)
   \<and> (isInteger q \<and> 0 \<le> q \<longrightarrow> extractNumericBel (JNum (Fin q)) = Some (Fin q))
   \<and> (\<not> isInteger q \<or> q < 0 \<longrightarrow> extractNumericBel (JNum (Fin q)) = None)
   \<and> ((\<forall>t. v \<noteq> JStr t) \<and> (\<forall>r. v \<noteq> JNum (Fin r)) \<longrightarrow> extractNumericBel v = None)"
proof (intro conjI impI)
  assume "trim s \<noteq> [] \<and> (\<forall>c\<in>set (trim s). isDigit c)"
  then show "extractNumericBel (JStr s) = Some (roundDouble (of_int (digitsValue (trim s))))"
    by (simp add: extractNumericBel_string allDigits_def list_all_iff)
next
  assume "trim s \<noteq> [] \<and> (\<forall>c\<in>set (trim s). isDigit c)" and "digitsValue (trim s) \<le> 2 ^ 53"
  then show "extractNumericBel (JStr s) = Some (Fin (of_int (digitsValue (trim s))))"
    by (simp add: extractNumericBel_string allDigits_def list_all_iff
        roundDouble_exact_integer digitsValue_nonneg)
next
  assume "trim s \<noteq> [] \<and> (\<forall>c\<in>set (trim s). isDigit c)" and "2 ^ 1024 \<le> digitsValue (trim s)"
  then show "extractNumericBel (JStr s) = Some PosInf"
    by (simp add: extractNumericBel_string allDigits_def list_all_iff roundDouble_overflow)
next
  assume "trim s = [] \<or> (\<exists>c\<in>set (trim s). \<not> isDigit c)"
  then show "extractNumericBel (JStr s) = None"
    by (auto simp: extractNumericBel_string allDigits_def list_all_iff)
next
  assume "isInteger q \<and> 0 \<le> q"
  then show "extractNumericBel (JNum (Fin q)) = Some (Fin q)"
    by (simp add: extractNumericBel_def)
next
  assume "\<not> isInteger q \<or> q < 0"
  then show "extractNumericBel (JNum (Fin q)) = None"
    by (auto simp: extractNumericBel_def)
next
  assume "(\<forall>t. v \<noteq> JStr t) \<and> (\<forall>r. v \<noteq> JNum (Fin r))"
  then show "extractNumericBel v = None"
    by (auto simp: extractNumericBel_def split: jsval.splits jsnum.splits)
qed

theorem extractNumericBel_by_cases_witness:
  "trim ''045'' = ''045'' \<and> list_all isDigit ''045'' \<and> digitsValue ''045'' = 45
   \<and> extractNumericBel (JStr ''045'') = Some (Fin 45)
   \<and> trim '' BEL123 '' = ''BEL123'' \<and> \<not> isDigit CHR ''B'' \<and> extractNumericBel (JStr '' BEL123 '') = None
   \<and> isInteger 7 \<and> extractNumericBel (JNum (Fin 7)) = Some (Fin 7)
   \<and> \<not> isInteger (7 / 2) \<and> extractNumericBel (JNum (Fin (7 / 2))) = None
   \<and> extractNumericBel (JBool True) = None"
proof -
  have e1: "trim ''045'' = ''045''" "list_all isDigit ''045''" "digitsValue ''045'' = 45"
    by code_simp+
  have e2: "trim '' BEL123 '' = ''BEL123''" "\<not> isDigit CHR ''B''"
    by code_simp+
  have e3: "isInteger 7" "\<not> isInteger (7 / 2)"
    by code_simp+
  have digits: "trim ''045'' \<noteq> [] \<and> (\<forall>c\<in>set (trim ''045''). isDigit c)"
    and small: "digitsValue (trim ''045'') \<le> 2 ^ 53"
    using e1 by (simp_all add: list_all_iff)
  note inst = extractNumericBel_by_cases [of "''045''" 7 "JBool True"]
  from inst digits small
  have "extractNumericBel (JStr ''045'') = Some (Fin (of_int (digitsValue (trim ''045''))))"
    by blast
  then have a1: "extractNumericBel (JStr ''045'') = Some (Fin 45)"
    by (simp add: e1)
  from inst e3
  have a: "extractNumericBel (JNum (Fin 7)) = Some (Fin 7)" "extractNumericBel (JBool True) = None"
    by simp_all
  from extractNumericBel_by_cases [of "'' BEL123 ''" "7 / 2" "JBool True"] e2 e3
  have b: "extractNumericBel (JStr '' BEL123 '') = None" "extractNumericBel (JNum (Fin (7 / 2))) = None"
    by auto
  from a1 a b e1 e2 e3 show ?thesis by simp
qed

text \<open>
  The claim as stated fails on a padded digit string: it contains a character that is
  not a digit, and the result is not \<open>null\<close>. It also fails on a digit string that
  spells an integer which is not a double: the result is the double next to it.
\<close>

theorem extractNumericBel_padded_digits_counterexample:
  "CHR '' '' \<in> set '' 45'' \<and> \<not> isDigit CHR '' '' \<and> extractNumericBel (JStr '' 45'') = Some (Fin 45)
   \<and> list_all isDigit ''9007199254740993'' \<and> digitsValue ''9007199254740993'' = 9007199254740993
   \<and> extractNumericBel (JStr ''9007199254740993'') = Some (Fin 9007199254740992)"
  by code_simp

subsection \<open>Trimming and case folding\<close>

lemma trim_decomposition:
  "\<exists>pre post. s = pre @ trim s @ post \<and> list_all isWhiteSpace pre \<and> list_all isWhiteSpace post"
proof -
  define d where "d = dropWhile isWhiteSpace s"
  have s: "s = takeWhile isWhiteSpace s @ d"
    by (simp add: d_def)
  have "rev (takeWhile isWhiteSpace (rev d) @ dropWhile isWhiteSpace (rev d)) = rev (rev d)"
    by (simp only: takeWhile_dropWhile_id)
  then have "rev (dropWhile isWhiteSpace (rev d)) @ rev (takeWhile isWhiteSpace (rev d)) = d"
    by (simp only: rev_append rev_rev_ident)
  then have d: "d = trim s @ rev (takeWhile isWhiteSpace (rev d))"
    by (simp only: trim_def d_def)
  have p1: "list_all isWhiteSpace (takeWhile isWhiteSpace s)"
    by (auto simp: list_all_iff dest: set_takeWhileD)
  have p2: "list_all isWhiteSpace (rev (takeWhile isWhiteSpace (rev d)))"
    by (auto simp: list_all_iff dest: set_takeWhileD)
  from s d have "s = takeWhile isWhiteSpace s @ trim s @ rev (takeWhile isWhiteSpace (rev d))"
    by simp
  with p1 p2 show ?thesis by blast
qed

lemma trim_last: "trim s \<noteq> [] \<Longrightarrow> \<not> isWhiteSpace (last (trim s))"
  using hd_dropWhile [of isWhiteSpace "rev (dropWhile isWhiteSpace s)"]
  by (simp add: trim_def last_rev)

lemma trim_hd:
  assumes "trim s \<noteq> []"
  shows "\<not> isWhiteSpace (hd (trim s))"
proof -
  define d where "d = dropWhile isWhiteSpace s"
  have "rev (takeWhile isWhiteSpace (rev d) @ dropWhile isWhiteSpace (rev d)) = rev (rev d)"
    by (simp only: takeWhile_dropWhile_id)
  then have "rev (dropWhile isWhiteSpace (rev d)) @ rev (takeWhile isWhiteSpace (rev d)) = d"
    by (simp only: rev_append rev_rev_ident)
  then have d: "d = trim s @ rev (takeWhile isWhiteSpace (rev d))"
    by (simp only: trim_def d_def)
  with assms have "d \<noteq> []" and "hd d = hd (trim s)"
    by (metis append_is_Nil_conv, metis hd_append2)
  with hd_dropWhile [of isWhiteSpace s] show ?thesis
    by (simp add: d_def)
qed

lemma length_upperChars: "length upperChars = length lowerChars"
  by (simp add: upperChars_def lowerChars_def asciiUpperChars_def asciiLowerChars_def)

lemma toLowerChar_cases:
  "toLowerChar c = c \<and> c \<notin> set upperChars \<or> toLowerChar c \<in> set lowerChars"
proof (cases "map_of (zip upperChars lowerChars) c")
  case None
  then have "c \<notin> set upperChars"
    by (simp add: map_of_zip_is_None [OF length_upperChars])
  with None show ?thesis by (simp add: toLowerChar_def)
next
  case (Some l)
  then have "l \<in> set lowerChars"
    by (auto dest!: map_of_SomeD set_zip_rightD)
  with Some show ?thesis by (simp add: toLowerChar_def)
qed

lemma lowerChars_not_upper: "list_all (\<lambda>l. l \<notin> set upperChars \<and> \<not> isWhiteSpace l) lowerChars"
  by code_simp

lemma upperChars_not_space: "list_all (\<lambda>u. \<not> isWhiteSpace u) upperChars"
  by code_simp

lemma toLowerChar_not_upper: "toLowerChar c \<notin> set upperChars"
  using toLowerChar_cases [of c] lowerChars_not_upper by (auto simp: list_all_iff)

lemma toLowerChar_space: "isWhiteSpace (toLowerChar c) = isWhiteSpace c"
proof (cases "c \<in> set upperChars")
  case True
  then have "\<not> isWhiteSpace c"
    using upperChars_not_space by (auto simp: list_all_iff)
  moreover from True have "toLowerChar c \<in> set lowerChars"
    using toLowerChar_cases [of c] by blast
  then have "\<not> isWhiteSpace (toLowerChar c)"
    using lowerChars_not_upper by (auto simp: list_all_iff)
  ultimately show ?thesis by simp
next
  case False
  then have "map_of (zip upperChars lowerChars) c = None"
    by (simp add: map_of_zip_is_None [OF length_upperChars])
  then show ?thesis by (simp add: toLowerChar_def)
qed

lemma toLowerChar_fixed: "c \<notin> set upperChars \<Longrightarrow> toLowerChar c = c"
  by (simp add: toLowerChar_def map_of_zip_is_None [OF length_upperChars, THEN iffD2])

lemma toLowerCase_idem: "toLowerCase (toLowerCase s) = toLowerCase s"
  by (simp add: toLowerCase_def toLowerChar_fixed toLowerChar_not_upper)

subsection \<open>The order of the sources\<close>

text \<open>
  C3: steps 1 and 2 are the specification's \<open>buildMapping\<close> over the observations of
  the directory, then the event sheet, then the service sheet. Every identifier an
  observation carries is in the used-id set, and nothing else is; the mapping gives
  each name the identifier of the first observation, in that order, that carries the
  name together with an identifier, whatever later observations say.
\<close>

theorem first_seen_id_wins:
  "collectIds rt d = buildMapping (observations rt d)
   \<and> observations rt d =
       directoryObservations rt (dData d) @ attendanceObservations rt (eData d)
       @ attendanceObservations rt (sData d)
   \<and> set (allUsedCodes (collectIds rt d)) = set (observedIds (observations rt d))
   \<and> (\<forall>ob\<in>set (observations rt d). \<forall>n. extractNumericBel (snd ob) = Some n \<longrightarrow>
         n \<in> set (allUsedCodes (collectIds rt d)))
   \<and> map_of (belMap (collectIds rt d)) = map_of (namedIds (observations rt d))
   \<and> (\<forall>pre nm raw post n.
         observations rt d = pre @ (Some nm, raw) # post \<and> nm \<noteq> []
         \<and> extractNumericBel raw = Some n
         \<and> (\<forall>ob\<in>set pre. fst ob = Some nm \<longrightarrow> extractNumericBel (snd ob) = None) \<longrightarrow>
         map_of (belMap (collectIds rt d)) nm = Some n)"
proof -
  have used: "set (allUsedCodes (collectIds rt d)) = set (observedIds (observations rt d))"
    by (simp add: collectIds_buildMapping buildMapping_def allUsedCodes_foldl_recordObservation)
  have mapping: "map_of (belMap (collectIds rt d)) = map_of (namedIds (observations rt d))"
    by (simp add: collectIds_buildMapping buildMapping_def belMap_foldl_recordObservation)
  have "\<forall>ob\<in>set (observations rt d). \<forall>n. extractNumericBel (snd ob) = Some n \<longrightarrow>
         n \<in> set (allUsedCodes (collectIds rt d))"
    unfolding used by (force simp: observedIds_def List.map_filter_def)
  moreover have "\<forall>pre nm raw post n.
         observations rt d = pre @ (Some nm, raw) # post \<and> nm \<noteq> []
         \<and> extractNumericBel raw = Some n
         \<and> (\<forall>ob\<in>set pre. fst ob = Some nm \<longrightarrow> extractNumericBel (snd ob) = None) \<longrightarrow>
         map_of (belMap (collectIds rt d)) nm = Some n"
    unfolding mapping by (auto simp: namedIds_first)
  ultimately show ?thesis
    using used mapping by (simp add: collectIds_buildMapping observations_def)
qed

theorem first_seen_id_wins_witness:
  "observations utcRuntime conflictSheets =
     [(Some ''jane doe'', JStr ''1001''), (Some ''jane doe'', JStr ''2002''),
      (Some ''jane doe'', JNum (Fin 3003))]
   \<and> extractNumericBel (JStr ''1001'') = Some (Fin 1001)
   \<and> map_of (belMap (collectIds utcRuntime conflictSheets)) ''jane doe'' = Some (Fin 1001)
   \<and> set (allUsedCodes (collectIds utcRuntime conflictSheets)) = {Fin 1001, Fin 2002, Fin 3003}"
proof -
  have obs: "observations utcRuntime conflictSheets =
     [(Some ''jane doe'', JStr ''1001''), (Some ''jane doe'', JStr ''2002''),
      (Some ''jane doe'', JNum (Fin 3003))]"
    by code_simp
  have ex: "extractNumericBel (JStr ''1001'') = Some (Fin 1001)"
    by code_simp
  have ids: "observedIds [(Some ''jane doe'', JStr ''1001''), (Some ''jane doe'', JStr ''2002''),
      (Some ''jane doe'', JNum (Fin 3003))] = [Fin 1001, Fin 2002, Fin 3003]"
    by code_simp
  note inst = first_seen_id_wins [of utcRuntime conflictSheets]
  from inst have "observations utcRuntime conflictSheets =
        [] @ (Some ''jane doe'', JStr ''1001'')
             # [(Some ''jane doe'', JStr ''2002''), (Some ''jane doe'', JNum (Fin 3003))]
      \<and> ''jane doe'' \<noteq> [] \<and> extractNumericBel (JStr ''1001'') = Some (Fin 1001)
      \<and> (\<forall>ob\<in>set []. fst ob = Some ''jane doe'' \<longrightarrow> extractNumericBel (snd ob) = None) \<longrightarrow>
      map_of (belMap (collectIds utcRuntime conflictSheets)) ''jane doe'' = Some (Fin 1001)"
    by blast
  with obs ex have m: "map_of (belMap (collectIds utcRuntime conflictSheets)) ''jane doe'' = Some (Fin 1001)"
    by simp
  from inst have "set (allUsedCodes (collectIds utcRuntime conflictSheets)) =
      set (observedIds (observations utcRuntime conflictSheets))"
    by blast
  with obs ids have u: "set (allUsedCodes (collectIds utcRuntime conflictSheets)) = {Fin 1001, Fin 2002, Fin 3003}"
    by simp
  from obs ex m u show ?thesis by simp
qed

subsection \<open>normalize and its callers\<close>

lemma trim_fixed:
  assumes "t = [] \<or> (\<not> isWhiteSpace (hd t) \<and> \<not> isWhiteSpace (last t))"
  shows "trim t = t"
proof (cases "t = []")
  case True
  then show ?thesis by (simp add: trim_def)
next
  case False
  with assms have h: "\<not> isWhiteSpace (hd t)" and l: "\<not> isWhiteSpace (last t)" by auto
  from False h have d1: "dropWhile isWhiteSpace t = t"
    by (cases t) auto
  from False l have d2: "dropWhile isWhiteSpace (rev t) = rev t"
    by (cases "rev t") (auto simp: hd_rev [symmetric])
  show ?thesis by (simp add: trim_def d1 d2)
qed

lemma namedIds_no_empty_key: "map_of (namedIds obs) [] = None"
  by (induction obs)
    (auto simp: namedIds_def truthyName_def split: option.splits)

text \<open>
  A call of the generator that returns leaves the mapping as it is; the row's body
  then enters the row's name, which is not empty.
\<close>

lemma generateBEL_keeps_mapping:
  assumes "generateBEL st = Some (Inr (n, st'))"
  shows "belMap (ids st') = belMap (ids st)"
proof -
  define kept where
    "kept = (\<lambda>(s::genstate) (y::error + jsnum \<times> genstate).
               case y of Inl e \<Rightarrow> True | Inr (m, s') \<Rightarrow> belMap (ids s') = belMap (ids s))"
  have "kept s y" if run: "generateBEL s = Some y" for s y
  proof (rule generateBEL.raw_induct [where P = kept, OF _ run])
    fix loop s' y'
    assume ih: "\<And>x y. loop x = Some y \<Longrightarrow> kept x y"
      and step: "(if codeCounter s' \<notin> set (allUsedCodes (ids s')) then
          Some (Inr (codeCounter s',
                     s'\<lparr>ids := (ids s')\<lparr>allUsedCodes := setAdd (codeCounter s') (allUsedCodes (ids s'))\<rparr>,
                        codeCounter := jsAdd (codeCounter s') (Fin 1)\<rparr>))
        else if jsGt (jsAdd (codeCounter s') (Fin 1)) (jsAdd (highestFoundNum s') (Fin 20000))
        then Some (Inl IdCounterExceeded)
        else loop (s'\<lparr>codeCounter := jsAdd (codeCounter s') (Fin 1)\<rparr>)) = Some y'"
    show "kept s' y'"
    proof (cases "codeCounter s' \<notin> set (allUsedCodes (ids s'))")
      case True
      with step show ?thesis
        by (auto simp: kept_def)
    next
      case False
      show ?thesis
      proof (cases "jsGt (jsAdd (codeCounter s') (Fin 1)) (jsAdd (highestFoundNum s') (Fin 20000))")
        case True
        with False step show ?thesis
          by (auto simp: kept_def)
      next
        case nothrow: False
        with False step have "loop (s'\<lparr>codeCounter := jsAdd (codeCounter s') (Fin 1)\<rparr>) = Some y'"
          by simp
        from ih [OF this] show ?thesis
          by (auto simp: kept_def split: sum.splits)
      qed
    qed
  qed
  from this [OF assms] show ?thesis
    by (simp add: kept_def)
qed

lemma assignRow_no_empty_key:
  assumes "map_of (belMap (ids st)) [] = None"
    and "assignRow rt st r = Some (Inr st')"
  shows "map_of (belMap (ids st')) [] = None"
proof (cases "length r < 2 \<or> \<not> truthyName (normalize rt (idx r 1))")
  case True
  then have "assignRow rt st r = Some (Inr st)"
    by (auto simp: assignRow_def)
  with assms show ?thesis by simp
next
  case False
  then have len: "\<not> length r < 2" and nm: "truthyName (normalize rt (idx r 1))" by auto
  from nm have ne: "the (normalize rt (idx r 1)) \<noteq> []"
    by (auto simp: truthyName_def split: option.splits)
  show ?thesis
  proof (cases "map_of (belMap (ids st)) (the (normalize rt (idx r 1)))")
    case (Some n)
    from assignRow_mapped [OF len nm Some] assms show ?thesis
      by (auto split: option.splits)
  next
    case None
    with len nm assms(2) obtain n s1 where
      gen: "generateBEL st = Some (Inr (n, s1))" and
      st': "belMap (ids st') = mapSet (the (normalize rt (idx r 1))) n (belMap (ids s1))"
      by (auto simp: assignRow_def mapHas_def split: option.splits sum.splits)
    from generateBEL_keeps_mapping [OF gen] assms(1) ne show ?thesis
      by (simp add: st' map_of_mapSet)
  qed
qed

lemma assignRows_no_empty_key:
  "map_of (belMap (ids st)) [] = None \<Longrightarrow> assignRows rt st rs = Some (Inr st') \<Longrightarrow>
   map_of (belMap (ids st')) [] = None"
proof (induction rs arbitrary: st)
  case Nil
  then show ?case by simp
next
  case (Cons r rs)
  from Cons.prems(2) obtain s1 where
    s1: "assignRow rt st r = Some (Inr s1)" "assignRows rt s1 rs = Some (Inr st')"
    by (auto split: option.splits sum.splits)
  from assignRow_no_empty_key [OF Cons.prems(1) s1(1)]
  have "map_of (belMap (ids s1)) [] = None" .
  from Cons.IH [OF this s1(2)] show ?case .
qed

text \<open>
  C9: \<open>normalize\<close> returns a result for every value and never throws. For \<open>null\<close> and
  \<open>undefined\<close> the result is \<open>undefined\<close>; for any other value it is the value's string
  form with the white space at both ends removed and its capitals replaced by their
  lower-case partners, so it has no white space at either end and no capital in it.
  \<open>null\<close> and the empty string give a falsy key, and the callers in steps 1, 2 and 5
  never enter the empty key into the mapping: not in a run that ends, and a run that
  counts exactly does end.
\<close>

theorem normalize_trims_and_folds:
  "normalize rt JNull = None \<and> normalize rt JUndefined = None
   \<and> (v \<noteq> JNull \<and> v \<noteq> JUndefined \<longrightarrow>
        (\<exists>pre core post.
           jsString rt v = pre @ core @ post
           \<and> list_all isWhiteSpace pre \<and> list_all isWhiteSpace post
           \<and> (core = [] \<or> (\<not> isWhiteSpace (hd core) \<and> \<not> isWhiteSpace (last core)))
           \<and> normalize rt v = Some (toLowerCase core)))
   \<and> (\<forall>k. normalize rt v = Some k \<longrightarrow>
         trim k = k \<and> toLowerCase k = k \<and> (\<forall>c\<in>set k. c \<notin> set upperChars))
   \<and> \<not> truthyName (normalize rt JNull) \<and> \<not> truthyName (normalize rt JUndefined)
   \<and> \<not> truthyName (normalize rt (JStr []))
   \<and> map_of (belMap (collectIds rt d)) [] = None
   \<and> (\<forall>st. runAssignment rt d = Some (Inr st) \<longrightarrow> map_of (belMap (ids st)) [] = None)
   \<and> (idsStayExact rt d \<longrightarrow>
        (\<exists>st. runAssignment rt d = Some (Inr st) \<and> map_of (belMap (ids st)) [] = None))"
proof -
  have defined: "v \<noteq> JNull \<and> v \<noteq> JUndefined \<longrightarrow>
      normalize rt v = Some (toLowerCase (trim (jsString rt v)))"
    by (cases v) (simp_all add: normalize_def)
  have decomp: "v \<noteq> JNull \<and> v \<noteq> JUndefined \<longrightarrow>
        (\<exists>pre core post.
           jsString rt v = pre @ core @ post
           \<and> list_all isWhiteSpace pre \<and> list_all isWhiteSpace post
           \<and> (core = [] \<or> (\<not> isWhiteSpace (hd core) \<and> \<not> isWhiteSpace (last core)))
           \<and> normalize rt v = Some (toLowerCase core))"
  proof
    assume nn: "v \<noteq> JNull \<and> v \<noteq> JUndefined"
    from trim_decomposition [of "jsString rt v"] obtain pre post where
      "jsString rt v = pre @ trim (jsString rt v) @ post"
      "list_all isWhiteSpace pre" "list_all isWhiteSpace post"
      by blast
    moreover have "trim (jsString rt v) = []
        \<or> (\<not> isWhiteSpace (hd (trim (jsString rt v))) \<and> \<not> isWhiteSpace (last (trim (jsString rt v))))"
      using trim_hd [of "jsString rt v"] trim_last [of "jsString rt v"] by blast
    moreover from nn defined have "normalize rt v = Some (toLowerCase (trim (jsString rt v)))"
      by simp
    ultimately show "\<exists>pre core post.
           jsString rt v = pre @ core @ post
           \<and> list_all isWhiteSpace pre \<and> list_all isWhiteSpace post
           \<and> (core = [] \<or> (\<not> isWhiteSpace (hd core) \<and> \<not> isWhiteSpace (last core)))
           \<and> normalize rt v = Some (toLowerCase core)"
      by blast
  qed
  have shape: "\<forall>k. normalize rt v = Some k \<longrightarrow>
         trim k = k \<and> toLowerCase k = k \<and> (\<forall>c\<in>set k. c \<notin> set upperChars)"
  proof (intro allI impI)
    fix k
    assume k: "normalize rt v = Some k"
    then have nn: "v \<noteq> JNull \<and> v \<noteq> JUndefined"
      by (auto simp: normalize_def)
    define t where "t = trim (jsString rt v)"
    from k nn defined have kt: "k = toLowerCase t"
      by (simp add: t_def)
    have ends: "t = [] \<or> (\<not> isWhiteSpace (hd t) \<and> \<not> isWhiteSpace (last t))"
      using trim_hd [of "jsString rt v"] trim_last [of "jsString rt v"] by (auto simp: t_def)
    then have "k = [] \<or> (\<not> isWhiteSpace (hd k) \<and> \<not> isWhiteSpace (last k))"
      by (auto simp: kt toLowerCase_def hd_map last_map toLowerChar_space)
    then have "trim k = k" by (rule trim_fixed)
    moreover have "toLowerCase k = k"
      by (simp add: kt toLowerCase_idem)
    moreover have "\<forall>c\<in>set k. c \<notin> set upperChars"
      by (auto simp: kt toLowerCase_def toLowerChar_not_upper)
    ultimately show "trim k = k \<and> toLowerCase k = k \<and> (\<forall>c\<in>set k. c \<notin> set upperChars)"
      by simp
  qed
  have falsy: "\<not> truthyName (normalize rt JNull)" "\<not> truthyName (normalize rt JUndefined)"
    "\<not> truthyName (normalize rt (JStr []))"
    by (simp_all add: normalize_def truthyName_def jsString_def trim_def toLowerCase_def)
  have c0: "map_of (belMap (collectIds rt d)) [] = None"
    by (simp add: collectIds_buildMapping buildMapping_def belMap_foldl_recordObservation
        namedIds_no_empty_key)
  have run: "\<forall>st. runAssignment rt d = Some (Inr st) \<longrightarrow> map_of (belMap (ids st)) [] = None"
  proof (intro allI impI)
    fix st
    assume "runAssignment rt d = Some (Inr st)"
    then have "assignRows rt (initGen (collectIds rt d)) (attendanceDataRaw d) = Some (Inr st)"
      by (simp add: runAssignment_def)
    moreover from c0 have "map_of (belMap (ids (initGen (collectIds rt d)))) [] = None"
      by (simp add: initGen_def)
    ultimately show "map_of (belMap (ids st)) [] = None"
      by (rule assignRows_no_empty_key [rotated])
  qed
  have ends: "idsStayExact rt d \<longrightarrow>
        (\<exists>st. runAssignment rt d = Some (Inr st) \<and> map_of (belMap (ids st)) [] = None)"
    using run runAssignment_inv [of rt d] by blast
  from decomp shape falsy c0 run ends show ?thesis
    by (simp add: normalize_def)
qed

theorem normalize_trims_and_folds_witness:
  "JStr ''  Jane DOE '' \<noteq> JNull \<and> JStr ''  Jane DOE '' \<noteq> JUndefined
   \<and> normalize utcRuntime (JStr ''  Jane DOE '') = Some ''jane doe''
   \<and> trim ''jane doe'' = ''jane doe'' \<and> toLowerCase ''jane doe'' = ''jane doe''
   \<and> list_all (\<lambda>c. c \<notin> set upperChars) ''jane doe''"
proof -
  have n: "normalize utcRuntime (JStr ''  Jane DOE '') = Some ''jane doe''"
    by code_simp
  from normalize_trims_and_folds [of utcRuntime "JStr ''  Jane DOE ''" sampleSheets] n
  have "trim ''jane doe'' = ''jane doe'' \<and> toLowerCase ''jane doe'' = ''jane doe''
      \<and> (\<forall>c\<in>set ''jane doe''. c \<notin> set upperChars)"
    by blast
  with n show ?thesis by (simp add: list_all_iff)
qed

section \<open>Properties of the activity classifier\<close>

lemma stringToNumber_NaN_not_blank: "stringToNumber s = NaN \<Longrightarrow> trim s \<noteq> []"
  by (auto simp: stringToNumber_def Let_def)

lemma trim_Nil: "trim [] = []"
  by (simp add: trim_def)

text \<open>
  The source's test \<open>isEffectivelyBlankOrInvalid\<close> agrees with the specification's
  ``blank or non-numeric text'' on every cell but one that holds nothing but white
  space: there it says no.
\<close>

lemma effectivelyBlankOrInvalid_cell:
  assumes "isCell v" and "\<not> whiteSpaceOnly v"
  shows "effectivelyBlankOrInvalid rt v = Inr (blankOrNonNumericText v)"
proof (cases v)
  case (JStr s)
  with assms(2) show ?thesis
    by (auto simp: effectivelyBlankOrInvalid_def blankOrNonNumericText_def toNumber_def
        whiteSpaceOnly_def isNaN_def jsString_def trim_Nil dest: stringToNumber_NaN_not_blank)
next
  case (JNum n)
  with assms obtain q where "n = Fin q"
    by (cases n) (auto simp: isCell_def)
  with JNum show ?thesis
    by (simp add: effectivelyBlankOrInvalid_def blankOrNonNumericText_def toNumber_def isNaN_def)
next
  case (JDate t)
  with assms obtain u where "t = Some u"
    by (cases t) (auto simp: isCell_def)
  with JDate show ?thesis
    by (simp add: effectivelyBlankOrInvalid_def blankOrNonNumericText_def toNumber_def isNaN_def)
qed (use assms in \<open>simp_all add: isCell_def effectivelyBlankOrInvalid_def
      blankOrNonNumericText_def toNumber_def isNaN_def\<close>)

lemma effectivelyBlankOrInvalid_whiteSpaceOnly:
  assumes "whiteSpaceOnly v"
  shows "blankOrNonNumericText v" and "effectivelyBlankOrInvalid rt v = Inr False"
  using assms
  by (auto simp: whiteSpaceOnly_def blankOrNonNumericText_def effectivelyBlankOrInvalid_def
      jsString_def split: jsval.splits)

lemma effectivelyBlankOrInvalid_defined:
  "isCell v \<Longrightarrow> \<exists>b. effectivelyBlankOrInvalid rt v = Inr b"
  by (cases v) (auto simp: isCell_def effectivelyBlankOrInvalid_def)

lemma jsGe_mono: "jsGe x 12 \<Longrightarrow> jsGe x 3"
  by (cases x) (simp_all add: jsGe_def)

lemma jsGe_jsLt: "jsGe x c \<Longrightarrow> \<not> jsLt x c"
  by (cases x) (simp_all add: jsGe_def jsLt_def)

lemma jsLt_not_jsGe: "jsLt x c \<Longrightarrow> \<not> jsGe x c"
  by (cases x) (simp_all add: jsGe_def jsLt_def)

lemma activityLevels_rows:
  "\<forall>p\<in>set ps. isCell (fst p) \<and> isCell (snd p) \<Longrightarrow>
   \<exists>labels. activityLevels rt ps = Inr labels
     \<and> list_all2 (\<lambda>p l. activityLevel rt (fst p) (snd p) = Inr l) ps labels"
proof (induction ps)
  case Nil
  show ?case by simp
next
  case (Cons p ps)
  obtain e k where p: "p = (e, k)" by (cases p)
  with Cons.prems have "isCell e" "isCell k" by simp_all
  then obtain eb kb where "effectivelyBlankOrInvalid rt e = Inr eb"
      "effectivelyBlankOrInvalid rt k = Inr kb"
    using effectivelyBlankOrInvalid_defined by blast
  then obtain l where l: "activityLevel rt e k = Inr l"
    by (auto simp: activityLevel_def Let_def)
  from Cons obtain ls where
    "activityLevels rt ps = Inr ls"
    "list_all2 (\<lambda>p l. activityLevel rt (fst p) (snd p) = Inr l) ps ls"
    by auto
  with p l show ?case by simp
qed

text \<open>
  For cell values E and K of which none holds white space only, the label is empty
  when both are blank or text that is not a number; otherwise, with each input that
  is not a number counted as 0, it is \<open>Core\<close> when the sum, a double, is at least 12,
  \<open>Active\<close> when the sum is at least 3 and below 12, and \<open>Inactive\<close> when the sum is
  below 3. The loop applies the classifier to every row of the two columns.
\<close>

lemma activityLevel_labels:
  "(isCell e \<and> isCell k \<and> \<not> whiteSpaceOnly e \<and> \<not> whiteSpaceOnly k \<longrightarrow>
     (\<exists>label. activityLevel rt e k = Inr label
        \<and> (blankOrNonNumericText e \<and> blankOrNonNumericText k \<longrightarrow> label = [])
        \<and> (\<not> (blankOrNonNumericText e \<and> blankOrNonNumericText k) \<longrightarrow>
             (jsGe (combinedCount e k) 12 \<longrightarrow> label = ''Core'')
             \<and> (jsGe (combinedCount e k) 3 \<and> jsLt (combinedCount e k) 12 \<longrightarrow> label = ''Active'')
             \<and> (jsLt (combinedCount e k) 3 \<longrightarrow> label = ''Inactive''))))
   \<and> ((\<forall>p\<in>set (zip valuesE valuesK). isCell (fst p) \<and> isCell (snd p)) \<longrightarrow>
        (\<exists>labels. updateActivityLevels rt valuesE valuesK = Inr labels
           \<and> list_all2 (\<lambda>p l. activityLevel rt (fst p) (snd p) = Inr l)
                (zip valuesE valuesK) labels))"
proof (intro conjI impI)
  assume "\<forall>p\<in>set (zip valuesE valuesK). isCell (fst p) \<and> isCell (snd p)"
  then show "\<exists>labels. updateActivityLevels rt valuesE valuesK = Inr labels
           \<and> list_all2 (\<lambda>p l. activityLevel rt (fst p) (snd p) = Inr l)
                (zip valuesE valuesK) labels"
    unfolding updateActivityLevels_def by (rule activityLevels_rows)
next
  assume cells: "isCell e \<and> isCell k \<and> \<not> whiteSpaceOnly e \<and> \<not> whiteSpaceOnly k"
  then have be: "effectivelyBlankOrInvalid rt e = Inr (blankOrNonNumericText e)"
    and bk: "effectivelyBlankOrInvalid rt k = Inr (blankOrNonNumericText k)"
    by (simp_all add: effectivelyBlankOrInvalid_cell)
  have act: "activityLevel rt e k =
      Inr (if blankOrNonNumericText e \<and> blankOrNonNumericText k then []
           else if jsGe (combinedCount e k) 12 then ''Core''
           else if jsGe (combinedCount e k) 3 then ''Active''
           else ''Inactive'')"
    by (simp add: activityLevel_def Let_def be bk combinedCount_def valueForSum_def)
  show "\<exists>label. activityLevel rt e k = Inr label
        \<and> (blankOrNonNumericText e \<and> blankOrNonNumericText k \<longrightarrow> label = [])
        \<and> (\<not> (blankOrNonNumericText e \<and> blankOrNonNumericText k) \<longrightarrow>
             (jsGe (combinedCount e k) 12 \<longrightarrow> label = ''Core'')
             \<and> (jsGe (combinedCount e k) 3 \<and> jsLt (combinedCount e k) 12 \<longrightarrow> label = ''Active'')
             \<and> (jsLt (combinedCount e k) 3 \<longrightarrow> label = ''Inactive''))"
    unfolding act
    by (auto dest: jsGe_mono jsGe_jsLt jsLt_not_jsGe)
qed

text \<open>
  When one of the cells holds white space only, the label is never empty, whatever
  the other cell holds: it follows the sum, in which the cell counts as 0.
\<close>

lemma activityLevel_whiteSpaceOnly:
  assumes "isCell e" and "isCell k" and "whiteSpaceOnly e \<or> whiteSpaceOnly k"
  shows "activityLevel rt e k =
      Inr (if jsGe (combinedCount e k) 12 then ''Core''
           else if jsGe (combinedCount e k) 3 then ''Active''
           else ''Inactive'')"
proof -
  from assms(1,2) obtain eb kb where b: "effectivelyBlankOrInvalid rt e = Inr eb"
      "effectivelyBlankOrInvalid rt k = Inr kb"
    using effectivelyBlankOrInvalid_defined by blast
  from assms(3) b effectivelyBlankOrInvalid_whiteSpaceOnly(2) [of e rt]
    effectivelyBlankOrInvalid_whiteSpaceOnly(2) [of k rt]
  have nb: "(eb \<and> kb) = False"
    by auto
  show ?thesis
    by (simp add: activityLevel_def Let_def combinedCount_def valueForSum_def b nb)
qed

text \<open>
  C5: both inputs blank or text that is not a number are to give the empty label,
  not \<open>Inactive\<close>. A cell that holds one space is blank, and so is an empty cell;
  for this pair the classifier writes \<open>Inactive\<close>: its test for a blank cell
  compares the value with the empty string before it is trimmed.
\<close>

theorem activityLevel_blank_cell_inactive:
  "isCell (JStr '' '') \<and> isCell (JStr [])
   \<and> blankOrNonNumericText (JStr '' '') \<and> blankOrNonNumericText (JStr [])
   \<and> activityLevel utcRuntime (JStr '' '') (JStr []) = Inr ''Inactive''
   \<and> updateActivityLevels utcRuntime [JStr '' ''] [JStr []] = Inr [''Inactive'']"
  by code_simp

section \<open>Properties of the aggregation\<close>

subsection \<open>Grouping\<close>

lemma keys_mapSet:
  "map fst (mapSet k v m) = (if mapHas m k then map fst m else map fst m @ [k])"
proof -
  have "map fst (map (\<lambda>(k', v'). if k' = k then (k', v) else (k', v')) m) = map fst m"
    by (induction m) auto
  then show ?thesis by (simp add: mapSet_def)
qed

lemma mapHas_keys: "mapHas m k = (k \<in> set (map fst m))"
  by (simp add: mapHas_def map_of_eq_None_iff)

lemma map_of_groupPush:
  "map_of (groupPush g k r) =
     (map_of g)(k \<mapsto> (case map_of g k of None \<Rightarrow> [r] | Some rs \<Rightarrow> rs @ [r]))"
  by (auto simp: groupPush_def Let_def map_of_mapSet mapGet_def mapHas_def fun_eq_iff)

lemma keys_groupPush:
  "map fst (groupPush g k r) = (if k \<in> set (map fst g) then map fst g else map fst g @ [k])"
proof (cases "mapHas g k")
  case True
  then show ?thesis
    by (simp add: groupPush_def keys_mapSet) (simp add: mapHas_keys)
next
  case False
  then have h: "mapHas (mapSet k [] g) k"
    by (simp add: mapHas_def map_of_mapSet)
  have "map fst (groupPush g k r) = map fst (mapSet k [] g)"
    using False h by (simp add: groupPush_def Let_def keys_mapSet)
  also have "\<dots> = map fst g @ [k]"
    using False by (simp add: keys_mapSet)
  finally show ?thesis
    using False by (simp add: mapHas_keys)
qed

lemma groupRows_entries:
  "foldl (\<lambda>grouped r. case attendanceEntry rt r of
                        None \<Rightarrow> grouped
                      | Some (k, record) \<Rightarrow> groupPush grouped k record) g rows =
   foldl (\<lambda>grouped e. groupPush grouped (fst e) (snd e)) g (List.map_filter (attendanceEntry rt) rows)"
  by (induction rows arbitrary: g) (auto split: option.splits)

lemma recordsOf_Cons:
  "recordsOf k (e # es) = (if fst e = k then snd e # recordsOf k es else recordsOf k es)"
  by (simp add: recordsOf_def)

lemma foldl_groupPush_lookup:
  "map_of (foldl (\<lambda>grouped e. groupPush grouped (fst e) (snd e)) g es) k =
     (case map_of g k of
        None \<Rightarrow> (if recordsOf k es = [] then None else Some (recordsOf k es))
      | Some rs \<Rightarrow> Some (rs @ recordsOf k es))"
proof (induction es arbitrary: g)
  case Nil
  show ?case by (simp add: recordsOf_def split: option.splits)
next
  case (Cons e es)
  show ?case
    by (simp add: Cons.IH map_of_groupPush recordsOf_Cons split: option.splits)
qed

lemma foldl_groupPush_keys:
  "distinct (map fst g) \<Longrightarrow>
   distinct (map fst (foldl (\<lambda>grouped e. groupPush grouped (fst e) (snd e)) g es))
   \<and> set (map fst (foldl (\<lambda>grouped e. groupPush grouped (fst e) (snd e)) g es)) =
       set (map fst g) \<union> fst ` set es"
proof (induction es arbitrary: g)
  case Nil
  then show ?case by simp
next
  case (Cons e es)
  have d: "distinct (map fst (groupPush g (fst e) (snd e)))"
    using Cons.prems by (simp add: keys_groupPush)
  from Cons.IH [OF d] show ?case
    by (auto simp: keys_groupPush split: if_splits)
qed

lemma groupRows_keys:
  "distinct (map fst (groupRows rt rawData))
   \<and> set (map fst (groupRows rt rawData)) = fst ` set (survivingEntries rt rawData)"
  using foldl_groupPush_keys [of "[]" "survivingEntries rt rawData"]
  by (simp add: groupRows_def groupRows_entries survivingEntries_def)

lemma groupRows_lookup:
  "map_of (groupRows rt rawData) k =
     (if recordsOf k (survivingEntries rt rawData) = [] then None
      else Some (recordsOf k (survivingEntries rt rawData)))"
  by (simp add: groupRows_def groupRows_entries survivingEntries_def foldl_groupPush_lookup)

lemma recordsOf_empty_iff: "recordsOf k es = [] \<longleftrightarrow> k \<notin> fst ` set es"
  by (auto simp: recordsOf_def filter_empty_conv image_iff)

lemma groupRows_set:
  "set (groupRows rt rawData) =
     (\<lambda>k. (k, recordsOf k (survivingEntries rt rawData))) ` fst ` set (survivingEntries rt rawData)"
proof -
  let ?g = "groupRows rt rawData"
  let ?es = "survivingEntries rt rawData"
  have d: "distinct (map fst ?g)" by (simp add: groupRows_keys)
  have "(k, rs) \<in> set ?g \<longleftrightarrow> k \<in> fst ` set ?es \<and> rs = recordsOf k ?es" for k rs
  proof -
    have "(k, rs) \<in> set ?g \<longleftrightarrow> map_of ?g k = Some rs"
      using d by simp
    also have "\<dots> \<longleftrightarrow> k \<in> fst ` set ?es \<and> rs = recordsOf k ?es"
      by (auto simp: groupRows_lookup recordsOf_empty_iff)
    finally show ?thesis .
  qed
  then show ?thesis by (auto simp: image_iff)
qed

subsection \<open>The summary of one group\<close>

lemma foldl_setAdd:
  "distinct u \<Longrightarrow>
   distinct (foldl (\<lambda>a x. setAdd x a) u xs) \<and> set (foldl (\<lambda>a x. setAdd x a) u xs) = set u \<union> set xs"
proof (induction xs arbitrary: u)
  case Nil
  then show ?case by simp
next
  case (Cons x xs)
  from Cons.prems have "distinct (setAdd x u)"
    by (simp add: setAdd_def)
  from Cons.IH [OF this] show ?case
    by (auto simp: set_setAdd)
qed

lemma length_foldl_setAdd: "length (foldl (\<lambda>a x. setAdd x a) [] xs) = card (set xs)"
  using foldl_setAdd [of "[]" xs] by (metis distinct.simps(1) distinct_card empty_set sup_bot_left)

lemma foldl_tally:
  "foldl (tally cm cq cy) (u, m, q, v) rs =
     (foldl (\<lambda>a x. setAdd x a) u (map eventKey rs),
      foldl (\<lambda>a x. setAdd x a) m (map eventKey (filter (\<lambda>r. year r = cy \<and> month r = cm) rs)),
      foldl (\<lambda>a x. setAdd x a) q (map eventKey (filter (\<lambda>r. year r = cy \<and> quarter r = cq) rs)),
      v + length (filter (\<lambda>r. isVolunteer r \<and> year r = cy) rs))"
  by (induction rs arbitrary: u m q v) (simp_all add: tally_def)

lemma sortByDateDesc_head:
  assumes "rs \<noteq> []"
  shows "\<exists>r rest. sortByDateDesc rs = r # rest \<and> r \<in> set rs \<and> (\<forall>r'\<in>set rs. date r' \<le> date r)"
proof -
  have "length (sortByDateDesc rs) = length rs"
    by (simp add: sortByDateDesc_def)
  with assms obtain r rest where s: "sortByDateDesc rs = r # rest"
    by (cases "sortByDateDesc rs") auto
  have "set (r # rest) = set rs"
    using s [symmetric] by (simp add: sortByDateDesc_def)
  moreover have "sorted (map (\<lambda>r. - date r) (r # rest))"
    using s [symmetric] by (simp add: sortByDateDesc_def del: sorted_simps)
  ultimately have "r \<in> set rs" and "\<forall>r'\<in>set rs. date r' \<le> date r"
    by auto
  with s show ?thesis by blast
qed

lemma summarize_counts:
  "bel (summarize cy cq cm (k, rs)) = k
   \<and> totalUniqueEvents (summarize cy cq cm (k, rs)) = card (eventKey ` set rs)
   \<and> quarterEventCount (summarize cy cq cm (k, rs)) =
       card (eventKey ` {r \<in> set rs. year r = cy \<and> quarter r = cq})
   \<and> monthEventCount (summarize cy cq cm (k, rs)) =
       card (eventKey ` {r \<in> set rs. year r = cy \<and> month r = cm})
   \<and> volunteerCount (summarize cy cq cm (k, rs)) =
       length (filter (\<lambda>r. isVolunteer r \<and> year r = cy) rs)"
  by (simp add: summarize_def foldl_tally length_foldl_setAdd Let_def)

lemma summarize_most_recent:
  assumes "rs \<noteq> []"
  shows "\<exists>r\<in>set rs. (\<forall>r'\<in>set rs. date r' \<le> date r)
           \<and> fullName (summarize cy cq cm (k, rs)) = name r
           \<and> lastDate (summarize cy cq cm (k, rs)) = Some (date r)
           \<and> lastEventName (summarize cy cq cm (k, rs)) =
               takeWhile (\<lambda>c. c \<noteq> CHR ''-'') (eventKey r)"
proof -
  from sortByDateDesc_head [OF assms] obtain r rest where
    "sortByDateDesc rs = r # rest" "r \<in> set rs" "\<forall>r'\<in>set rs. date r' \<le> date r"
    by blast
  then show ?thesis
    by (intro bexI [of _ r]) (simp_all add: summarize_def foldl_tally Let_def)
qed

lemma summarize_lastDate_Max:
  assumes "rs \<noteq> []"
  shows "lastDate (summarize cy cq cm (k, rs)) = Some (Max (date ` set rs))"
proof -
  from summarize_most_recent [OF assms, of cy cq cm k] obtain r where
    r: "r \<in> set rs" "\<forall>r'\<in>set rs. date r' \<le> date r"
       "lastDate (summarize cy cq cm (k, rs)) = Some (date r)"
    by blast
  have "Max (date ` set rs) = date r"
    using r(1,2) by (intro Max_eqI) auto
  with r(3) show ?thesis by simp
qed

lemma attendanceStats_set:
  "set (attendanceStats rt now rawData) =
     (\<lambda>k. summarize (getFullYear rt now) (getMonth rt now div 3) (getMonth rt now)
             (k, recordsOf k (survivingEntries rt rawData)))
       ` fst ` set (survivingEntries rt rawData)"
proof (cases "rawData = []")
  case True
  then show ?thesis
    by (simp add: attendanceStats_def survivingEntries_def)
next
  case False
  then show ?thesis
    by (simp add: attendanceStats_def Let_def groupRows_set image_image)
qed

lemma attendanceStats_bels:
  "distinct (map bel (attendanceStats rt now rawData))"
proof -
  have "map bel (map (summarize cy cq cm) g) = map fst g" for cy cq cm g
    by (induction g) (auto simp: summarize_counts)
  then have "map bel (attendanceStats rt now rawData) =
      (if rawData = [] then [] else map fst (groupRows rt rawData))"
    by (simp only: attendanceStats_def Let_def if_distrib [of "map bel"] list.map)
  then show ?thesis
    by (simp add: groupRows_keys)
qed

text \<open>
  C4: in every summary row the total of unique events is at least the quarter's count
  and at least the month's count.
\<close>

theorem total_bounds_quarter_and_month:
  "(\<forall>sr\<in>set (attendanceStats rt now rawData).
      quarterEventCount sr \<le> totalUniqueEvents sr \<and> monthEventCount sr \<le> totalUniqueEvents sr)
   \<and> (\<forall>summary. calculateAttendanceStats rt now data = Some (Inr summary) \<longrightarrow>
        (\<forall>sr\<in>set summary.
           quarterEventCount sr \<le> totalUniqueEvents sr \<and> monthEventCount sr \<le> totalUniqueEvents sr))"
proof -
  have one: "quarterEventCount (summarize cy cq cm (k, rs)) \<le> totalUniqueEvents (summarize cy cq cm (k, rs))
      \<and> monthEventCount (summarize cy cq cm (k, rs)) \<le> totalUniqueEvents (summarize cy cq cm (k, rs))"
    for cy cq cm k rs
    by (auto simp: summarize_counts intro!: card_mono)
  have all: "\<forall>sr\<in>set (attendanceStats rt now rows).
      quarterEventCount sr \<le> totalUniqueEvents sr \<and> monthEventCount sr \<le> totalUniqueEvents sr"
    for rows
    unfolding attendanceStats_set using one by blast
  show ?thesis
    using all by (auto simp: calculateAttendanceStats_def split: option.splits sum.splits)
qed

lemma sample_stats: "attendanceStats utcRuntime sampleNow sampleEvents = sampleSummary"
  by code_simp

lemma sample_stats_rev:
  "attendanceStats utcRuntime sampleNow (rev sampleEvents) = rev sampleSummary"
  by code_simp

theorem total_bounds_quarter_and_month_witness:
  "hd sampleSummary \<in> set (attendanceStats utcRuntime sampleNow sampleEvents)
   \<and> quarterEventCount (hd sampleSummary) = 1 \<and> monthEventCount (hd sampleSummary) = 1
   \<and> totalUniqueEvents (hd sampleSummary) = 2
   \<and> quarterEventCount (hd sampleSummary) \<le> totalUniqueEvents (hd sampleSummary)
   \<and> monthEventCount (hd sampleSummary) \<le> totalUniqueEvents (hd sampleSummary)"
proof -
  have m: "hd sampleSummary \<in> set (attendanceStats utcRuntime sampleNow sampleEvents)"
    by (simp add: sample_stats) (simp add: sampleSummary_def)
  have v: "quarterEventCount (hd sampleSummary) = 1" "monthEventCount (hd sampleSummary) = 1"
    "totalUniqueEvents (hd sampleSummary) = 2"
    by (simp_all add: sampleSummary_def)
  from total_bounds_quarter_and_month [of utcRuntime sampleNow sampleEvents None] m
  have "quarterEventCount (hd sampleSummary) \<le> totalUniqueEvents (hd sampleSummary)
      \<and> monthEventCount (hd sampleSummary) \<le> totalUniqueEvents (hd sampleSummary)"
    by blast
  with m v show ?thesis by simp
qed

subsection \<open>Rows without a valid date\<close>

lemma attendanceEntry_None_iff:
  "attendanceEntry rt r = None \<longleftrightarrow> length r < 11 \<or> parseTimestamp rt (idx r 10) = None"
  by (auto simp: attendanceEntry_def Let_def split: option.splits)

lemma attendanceEntry_key:
  "attendanceEntry rt r = Some (k, record) \<Longrightarrow> k = jsString rt (idx r 0)"
  by (auto simp: attendanceEntry_def Let_def split: option.splits if_splits)

lemma map_filter_filter:
  "(\<And>x. x \<in> set xs \<Longrightarrow> \<not> P x \<Longrightarrow> f x = None) \<Longrightarrow>
   List.map_filter f (filter P xs) = List.map_filter f xs"
  by (induction xs) (auto split: option.splits)

lemma survivingEntries_filter:
  "survivingEntries rt (filter (\<lambda>r. parseTimestamp rt (idx r 10) \<noteq> None) rawData) =
     survivingEntries rt rawData"
  unfolding survivingEntries_def
  by (rule map_filter_filter) (simp add: attendanceEntry_None_iff)

lemma groupRows_entries_eq:
  "survivingEntries rt rows' = survivingEntries rt rows \<Longrightarrow> groupRows rt rows' = groupRows rt rows"
  by (simp add: groupRows_def groupRows_entries survivingEntries_def)

lemma attendanceStats_groupRows:
  "attendanceStats rt now rawData =
     map (summarize (getFullYear rt now) (getMonth rt now div 3) (getMonth rt now))
       (groupRows rt rawData)"
  by (cases "rawData = []") (simp_all add: attendanceStats_def Let_def groupRows_def)

lemma survivingEntries_set:
  "(k, record) \<in> set (survivingEntries rt rawData) \<longleftrightarrow>
     (\<exists>r\<in>set rawData. attendanceEntry rt r = Some (k, record))"
  unfolding survivingEntries_def
  by (induction rawData) (auto split: option.splits)

text \<open>
  C7: a row whose timestamp is not a valid date contributes nothing, neither a record
  to a group nor anything to the summary, which is the summary of the rows with valid
  dates alone; every summary row belongs to an identity with at least one surviving
  row, counts at least one event and has a last-attended date.
\<close>

theorem invalid_timestamps_excluded:
  "(\<forall>r\<in>set rawData. parseTimestamp rt (idx r 10) = None \<longrightarrow> attendanceEntry rt r = None)
   \<and> attendanceStats rt now rawData =
       attendanceStats rt now (filter (\<lambda>r. parseTimestamp rt (idx r 10) \<noteq> None) rawData)
   \<and> (\<forall>sr\<in>set (attendanceStats rt now rawData).
         (\<exists>r\<in>set rawData. length r \<ge> 11 \<and> parseTimestamp rt (idx r 10) \<noteq> None
            \<and> jsString rt (idx r 0) = bel sr)
         \<and> 1 \<le> totalUniqueEvents sr \<and> lastDate sr \<noteq> None)"
proof (intro conjI ballI impI)
  fix r
  assume "parseTimestamp rt (idx r 10) = None"
  then show "attendanceEntry rt r = None"
    by (simp add: attendanceEntry_None_iff)
next
  show "attendanceStats rt now rawData =
       attendanceStats rt now (filter (\<lambda>r. parseTimestamp rt (idx r 10) \<noteq> None) rawData)"
    by (simp only: attendanceStats_groupRows groupRows_entries_eq [OF survivingEntries_filter])
next
  fix sr
  assume "sr \<in> set (attendanceStats rt now rawData)"
  then obtain k where k: "k \<in> fst ` set (survivingEntries rt rawData)"
    and sr: "sr = summarize (getFullYear rt now) (getMonth rt now div 3) (getMonth rt now)
                    (k, recordsOf k (survivingEntries rt rawData))"
    unfolding attendanceStats_set by blast
  let ?rs = "recordsOf k (survivingEntries rt rawData)"
  from k have ne: "?rs \<noteq> []"
    by (simp add: recordsOf_empty_iff)
  from k obtain rcd where "(k, rcd) \<in> set (survivingEntries rt rawData)"
    by force
  then obtain r where r: "r \<in> set rawData" "attendanceEntry rt r = Some (k, rcd)"
    by (auto simp: survivingEntries_set)
  then have "length r \<ge> 11 \<and> parseTimestamp rt (idx r 10) \<noteq> None"
    using attendanceEntry_None_iff [of rt r] by auto
  moreover have "jsString rt (idx r 0) = bel sr"
    using attendanceEntry_key [OF r(2)] by (simp add: sr summarize_counts)
  ultimately show "\<exists>r\<in>set rawData. length r \<ge> 11 \<and> parseTimestamp rt (idx r 10) \<noteq> None
            \<and> jsString rt (idx r 0) = bel sr"
    using r(1) by blast
  from ne have "eventKey ` set ?rs \<noteq> {}" by simp
  then have "0 < card (eventKey ` set ?rs)"
    by (simp add: card_gt_0_iff)
  then show "1 \<le> totalUniqueEvents sr"
    by (simp add: sr summarize_counts)
  show "lastDate sr \<noteq> None"
    by (simp add: sr summarize_lastDate_Max [OF ne])
qed

theorem invalid_timestamps_excluded_witness:
  "sampleEvents ! 1 \<in> set sampleEvents
   \<and> parseTimestamp utcRuntime (idx (sampleEvents ! 1) 10) = None
   \<and> attendanceEntry utcRuntime (sampleEvents ! 1) = None
   \<and> jsString utcRuntime (idx (sampleEvents ! 1) 0) = ''1044''
   \<and> map bel (attendanceStats utcRuntime sampleNow sampleEvents) = [''1042'', ''1043'']
   \<and> attendanceStats utcRuntime sampleNow
        (filter (\<lambda>r. parseTimestamp utcRuntime (idx r 10) \<noteq> None) sampleEvents) = sampleSummary"
proof -
  have m: "sampleEvents ! 1 \<in> set sampleEvents"
    by (simp add: sampleEvents_def)
  have p: "parseTimestamp utcRuntime (idx (sampleEvents ! 1) 10) = None"
    "jsString utcRuntime (idx (sampleEvents ! 1) 0) = ''1044''"
    by code_simp+
  note inst = invalid_timestamps_excluded [of sampleEvents utcRuntime sampleNow]
  from inst m p have e: "attendanceEntry utcRuntime (sampleEvents ! 1) = None"
    by blast
  from inst have f: "attendanceStats utcRuntime sampleNow
        (filter (\<lambda>r. parseTimestamp utcRuntime (idx r 10) \<noteq> None) sampleEvents) = sampleSummary"
    by (simp add: sample_stats)
  have b: "map bel (attendanceStats utcRuntime sampleNow sampleEvents) = [''1042'', ''1043'']"
    by (simp add: sample_stats) (simp add: sampleSummary_def)
  from m p e f b show ?thesis by simp
qed

subsection \<open>Independence of the input order\<close>

lemma mset_map_filter:
  "mset (List.map_filter f xs) = image_mset (the \<circ> f) (filter_mset (\<lambda>x. f x \<noteq> None) (mset xs))"
  by (induction xs) (auto split: option.splits)

lemma mset_survivingEntries:
  "mset rows' = mset rows \<Longrightarrow> mset (survivingEntries rt rows') = mset (survivingEntries rt rows)"
  by (simp add: survivingEntries_def mset_map_filter)

lemma mset_recordsOf:
  "mset es' = mset es \<Longrightarrow> mset (recordsOf k es') = mset (recordsOf k es)"
  by (simp add: recordsOf_def)

lemma length_filter_mset:
  assumes "mset rs' = mset rs"
  shows "length (filter P rs') = length (filter P rs)"
proof -
  have "mset (filter P rs') = mset (filter P rs)"
    using assms by simp
  then show ?thesis by (rule mset_eq_length)
qed

lemma countsOf_summarize_mset:
  assumes "mset rs' = mset rs"
  shows "countsOf (summarize cy cq cm (k, rs')) = countsOf (summarize cy cq cm (k, rs))"
proof -
  from assms have s: "set rs' = set rs"
    by (rule mset_eq_setD)
  have l: "lastDate (summarize cy cq cm (k, rs')) = lastDate (summarize cy cq cm (k, rs))"
  proof (cases "rs = []")
    case True
    with assms have "rs' = []" by simp
    with True show ?thesis by simp
  next
    case False
    with s have "rs' \<noteq> []" by auto
    with False s show ?thesis
      by (simp add: summarize_lastDate_Max)
  qed
  show ?thesis
    by (simp add: countsOf_def summarize_counts s l length_filter_mset [OF assms])
qed

text \<open>
  C8: when the formatted rows are permuted, every identity keeps its summary row with
  the same quarter, month, volunteer and total counts and the same last-attended
  date, and each identity has exactly one row. The record that supplies the name, the
  last date and the last event of a row is a surviving record of that identity whose
  timestamp is the greatest among them.
\<close>

theorem aggregation_order_independent:
  "(mset rawData' = mset rawData \<longrightarrow>
      countsOf ` set (attendanceStats rt now rawData') = countsOf ` set (attendanceStats rt now rawData))
   \<and> distinct (map bel (attendanceStats rt now rawData))
   \<and> (\<forall>sr\<in>set (attendanceStats rt now rawData).
         \<exists>r\<in>set (recordsOf (bel sr) (survivingEntries rt rawData)).
           (\<forall>r'\<in>set (recordsOf (bel sr) (survivingEntries rt rawData)). date r' \<le> date r)
           \<and> fullName sr = name r
           \<and> lastDate sr = Some (date r)
           \<and> lastEventName sr = takeWhile (\<lambda>c. c \<noteq> CHR ''-'') (eventKey r))"
proof (intro conjI impI ballI)
  assume perm: "mset rawData' = mset rawData"
  let ?es = "survivingEntries rt rawData" and ?es' = "survivingEntries rt rawData'"
  let ?sum = "summarize (getFullYear rt now) (getMonth rt now div 3) (getMonth rt now)"
  have es: "mset ?es' = mset ?es"
    using perm by (rule mset_survivingEntries)
  then have "set ?es' = set ?es"
    by (rule mset_eq_setD)
  then have keys: "fst ` set ?es' = fst ` set ?es"
    by (rule arg_cong)
  have pointwise: "countsOf (?sum (k, recordsOf k ?es')) = countsOf (?sum (k, recordsOf k ?es))" for k
    by (rule countsOf_summarize_mset) (rule mset_recordsOf [OF es])
  have "countsOf ` set (attendanceStats rt now rawData') =
      (\<lambda>k. countsOf (?sum (k, recordsOf k ?es'))) ` fst ` set ?es'"
    by (simp only: attendanceStats_set image_image)
  also have "\<dots> = (\<lambda>k. countsOf (?sum (k, recordsOf k ?es))) ` fst ` set ?es"
    by (simp only: keys pointwise)
  also have "\<dots> = countsOf ` set (attendanceStats rt now rawData)"
    by (simp only: attendanceStats_set image_image)
  finally show "countsOf ` set (attendanceStats rt now rawData') =
      countsOf ` set (attendanceStats rt now rawData)" .
next
  show "distinct (map bel (attendanceStats rt now rawData))"
    by (rule attendanceStats_bels)
next
  fix sr
  assume "sr \<in> set (attendanceStats rt now rawData)"
  then obtain k where k: "k \<in> fst ` set (survivingEntries rt rawData)"
    and sr: "sr = summarize (getFullYear rt now) (getMonth rt now div 3) (getMonth rt now)
                    (k, recordsOf k (survivingEntries rt rawData))"
    unfolding attendanceStats_set by blast
  from k have ne: "recordsOf k (survivingEntries rt rawData) \<noteq> []"
    by (simp add: recordsOf_empty_iff)
  have b: "bel sr = k"
    by (simp add: sr summarize_counts)
  from summarize_most_recent [OF ne] show
    "\<exists>r\<in>set (recordsOf (bel sr) (survivingEntries rt rawData)).
           (\<forall>r'\<in>set (recordsOf (bel sr) (survivingEntries rt rawData)). date r' \<le> date r)
           \<and> fullName sr = name r
           \<and> lastDate sr = Some (date r)
           \<and> lastEventName sr = takeWhile (\<lambda>c. c \<noteq> CHR ''-'') (eventKey r)"
    unfolding b unfolding sr .
qed

theorem aggregation_order_independent_witness:
  "mset (rev sampleEvents) = mset sampleEvents
   \<and> attendanceStats utcRuntime sampleNow sampleEvents = sampleSummary
   \<and> attendanceStats utcRuntime sampleNow (rev sampleEvents) = rev sampleSummary
   \<and> countsOf ` set (rev sampleSummary) = countsOf ` set sampleSummary
   \<and> map (date \<circ> snd) (survivingEntries utcRuntime sampleEvents) =
       [1710028800000, 1703376000000, 1710633600000]
   \<and> map lastDate sampleSummary = [Some 1710028800000, Some 1710633600000]"
proof -
  have p: "mset (rev sampleEvents) = mset sampleEvents"
    by (rule mset_rev)
  from aggregation_order_independent [of "rev sampleEvents" sampleEvents utcRuntime sampleNow] p
  have "countsOf ` set (attendanceStats utcRuntime sampleNow (rev sampleEvents)) =
      countsOf ` set (attendanceStats utcRuntime sampleNow sampleEvents)"
    by blast
  then have c: "countsOf ` set (rev sampleSummary) = countsOf ` set sampleSummary"
    by (simp only: sample_stats sample_stats_rev)
  have d: "map (date \<circ> snd) (survivingEntries utcRuntime sampleEvents) =
       [1710028800000, 1703376000000, 1710633600000]"
    by code_simp
  have l: "map lastDate sampleSummary = [Some 1710028800000, Some 1710633600000]"
    by (simp add: sampleSummary_def)
  from p sample_stats sample_stats_rev c d l show ?thesis
    by (intro conjI)
qed

subsection \<open>The key of an event instance\<close>

lemma take_prefix_iff: "take (length p) s = p \<longleftrightarrow> (\<exists>post. s = p @ post)"
  by (metis append_eq_conv_conj append_take_drop_id)

lemma strIncludes_iff: "strIncludes s p \<longleftrightarrow> (\<exists>pre post. s = pre @ p @ post)"
proof (induction s)
  case Nil
  show ?case by auto
next
  case (Cons c cs)
  have "(\<exists>pre post. c # cs = pre @ p @ post) \<longleftrightarrow>
      (\<exists>post. c # cs = p @ post) \<or> (\<exists>pre post. cs = pre @ p @ post)"
  proof
    assume "\<exists>pre post. c # cs = pre @ p @ post"
    then obtain pre post where e: "c # cs = pre @ p @ post" by blast
    show "(\<exists>post. c # cs = p @ post) \<or> (\<exists>pre post. cs = pre @ p @ post)"
    proof (cases pre)
      case Nil
      with e show ?thesis by auto
    next
      case (Cons a pre')
      with e have "cs = pre' @ p @ post" by simp
      then show ?thesis by blast
    qed
  next
    assume "(\<exists>post. c # cs = p @ post) \<or> (\<exists>pre post. cs = pre @ p @ post)"
    then show "\<exists>pre post. c # cs = pre @ p @ post"
    proof
      assume "\<exists>post. c # cs = p @ post"
      then obtain post where "c # cs = [] @ p @ post" by auto
      then show ?thesis by blast
    next
      assume "\<exists>pre post. cs = pre @ p @ post"
      then obtain pre post where "c # cs = (c # pre) @ p @ post" by auto
      then show ?thesis by blast
    qed
  qed
  with Cons.IH show ?case
    by (simp only: strIncludes.simps take_prefix_iff)
qed

lemma map_contains_iff:
  "(\<exists>pre post. map f s = pre @ p @ post) \<longleftrightarrow>
     (\<exists>pre m post. s = pre @ m @ post \<and> map f m = p)"
proof
  assume "\<exists>pre post. map f s = pre @ p @ post"
  then obtain pre post where "map f s = pre @ (p @ post)" by auto
  then have "\<exists>us vs. s = us @ vs \<and> pre = map f us \<and> p @ post = map f vs"
    by (simp only: map_eq_append_conv)
  then obtain us vs where s1: "s = us @ vs" and v: "p @ post = map f vs"
    by blast
  from v have "\<exists>m ws. vs = m @ ws \<and> p = map f m \<and> post = map f ws"
    by (simp only: append_eq_map_conv)
  then obtain m ws where "vs = m @ ws" and "map f m = p"
    by auto
  with s1 show "\<exists>pre m post. s = pre @ m @ post \<and> map f m = p" by blast
next
  assume "\<exists>pre m post. s = pre @ m @ post \<and> map f m = p"
  then obtain pre m post where "s = pre @ m @ post" and "map f m = p" by blast
  then have "map f s = map f pre @ p @ map f post" by simp
  then show "\<exists>pre post. map f s = pre @ p @ post" by blast
qed

lemma matchesSundayService_iff:
  "matchesSundayService s \<longleftrightarrow>
     (\<exists>pre m post. s = pre @ m @ post \<and> map asciiLower m = ''sunday service'')"
  unfolding matchesSundayService_def strIncludes_iff by (rule map_contains_iff)

lemma attendanceEntry_eventKey:
  assumes "length r \<ge> 11" and "parseTimestamp rt (idx r 10) = Some t"
  shows "\<exists>k rcd. attendanceEntry rt r = Some (k, rcd)
           \<and> date rcd = t
           \<and> eventKey rcd =
               (if sundayServiceName (idx r 2) then ''sunday service-'' @ toDateString rt t
                else keyPart ''UnknownEvent'' (idx r 2) @ ''-'' @ keyPart ''UnknownID'' (idx r 3))"
  using assms
  by (simp add: attendanceEntry_def Let_def sundayServiceName_def keyPart_def)

text \<open>
  C6, as amended: the key of an event instance is \<open>sunday service-\<close> followed by the
  day rendering of its date exactly when the event name is a string that contains
  \<open>sunday service\<close> in any mixture of upper and lower case; for every other event it is
  the event name, a hyphen and the event id, with \<open>UnknownEvent\<close> and \<open>UnknownID\<close>
  standing in for a name or id that is not a string. Under the UTC host the day
  rendering is the same for all times of one calendar day.
\<close>

theorem eventKey_by_event_name:
  "(length r \<ge> 11 \<and> parseTimestamp rt (idx r 10) = Some t \<longrightarrow>
      (\<exists>k rcd. attendanceEntry rt r = Some (k, rcd)
         \<and> (sundayServiceName (idx r 2) \<longrightarrow> eventKey rcd = ''sunday service-'' @ toDateString rt t)
         \<and> (\<not> sundayServiceName (idx r 2) \<longrightarrow>
              eventKey rcd = keyPart ''UnknownEvent'' (idx r 2) @ ''-'' @ keyPart ''UnknownID'' (idx r 3))))
   \<and> (sundayServiceName (JStr s) \<longleftrightarrow>
        (\<exists>pre m post. s = pre @ m @ post \<and> map asciiLower m = ''sunday service''))
   \<and> ((\<forall>s. v \<noteq> JStr s) \<longrightarrow> \<not> sundayServiceName v)
   \<and> keyPart u (JStr s) = s
   \<and> ((\<forall>s. v \<noteq> JStr s) \<longrightarrow> keyPart u v = u)
   \<and> (t div msPerDay = t' div msPerDay \<longrightarrow> toDateString utcRuntime t = toDateString utcRuntime t')"
proof (intro conjI impI)
  assume "length r \<ge> 11 \<and> parseTimestamp rt (idx r 10) = Some t"
  then obtain k rcd where "attendanceEntry rt r = Some (k, rcd)"
    "eventKey rcd =
       (if sundayServiceName (idx r 2) then ''sunday service-'' @ toDateString rt t
        else keyPart ''UnknownEvent'' (idx r 2) @ ''-'' @ keyPart ''UnknownID'' (idx r 3))"
    using attendanceEntry_eventKey [of r rt t] by blast
  then show "\<exists>k rcd. attendanceEntry rt r = Some (k, rcd)
         \<and> (sundayServiceName (idx r 2) \<longrightarrow> eventKey rcd = ''sunday service-'' @ toDateString rt t)
         \<and> (\<not> sundayServiceName (idx r 2) \<longrightarrow>
              eventKey rcd = keyPart ''UnknownEvent'' (idx r 2) @ ''-'' @ keyPart ''UnknownID'' (idx r 3))"
    by auto
next
  show "sundayServiceName (JStr s) \<longleftrightarrow>
        (\<exists>pre m post. s = pre @ m @ post \<and> map asciiLower m = ''sunday service'')"
    unfolding sundayServiceName_def jsval.case by (rule matchesSundayService_iff)
next
  assume "\<forall>s. v \<noteq> JStr s"
  then show "\<not> sundayServiceName v"
    by (cases v) (simp_all add: sundayServiceName_def)
next
  show "keyPart u (JStr s) = s"
    by (simp add: keyPart_def)
next
  assume "\<forall>s. v \<noteq> JStr s"
  then show "keyPart u v = u"
    by (cases v) (simp_all add: keyPart_def)
next
  assume "t div msPerDay = t' div msPerDay"
  then have "utcToDateString t = utcToDateString t'"
    unfolding utcToDateString_def by (rule arg_cong)
  then show "toDateString utcRuntime t = toDateString utcRuntime t'"
    by (simp add: utcRuntime_def)
qed

theorem eventKey_by_event_name_witness:
  "length (sampleEvents ! 3) \<ge> 11
   \<and> parseTimestamp utcRuntime (idx (sampleEvents ! 3) 10) = Some 1710633600000
   \<and> idx (sampleEvents ! 3) 2 = JStr ''Youth sunday service''
   \<and> sundayServiceName (idx (sampleEvents ! 3) 2)
   \<and> toDateString utcRuntime 1710633600000 = ''Sun Mar 17 2024''
   \<and> map_option (eventKey \<circ> snd) (attendanceEntry utcRuntime (sampleEvents ! 3)) =
       Some ''sunday service-Sun Mar 17 2024''
   \<and> \<not> sundayServiceName (idx (sampleEvents ! 0) 2)
   \<and> map_option (eventKey \<circ> snd) (attendanceEntry utcRuntime (sampleEvents ! 0)) = Some ''Picnic-E1''"
proof -
  have h: "length (sampleEvents ! 3) \<ge> 11"
    "parseTimestamp utcRuntime (idx (sampleEvents ! 3) 10) = Some 1710633600000"
    "idx (sampleEvents ! 3) 2 = JStr ''Youth sunday service''"
    "sundayServiceName (idx (sampleEvents ! 3) 2)"
    "toDateString utcRuntime 1710633600000 = ''Sun Mar 17 2024''"
    by code_simp+
  have "length (sampleEvents ! 3) \<ge> 11
      \<and> parseTimestamp utcRuntime (idx (sampleEvents ! 3) 10) = Some 1710633600000 \<longrightarrow>
      (\<exists>k rcd. attendanceEntry utcRuntime (sampleEvents ! 3) = Some (k, rcd)
         \<and> (sundayServiceName (idx (sampleEvents ! 3) 2) \<longrightarrow>
              eventKey rcd = ''sunday service-'' @ toDateString utcRuntime 1710633600000)
         \<and> (\<not> sundayServiceName (idx (sampleEvents ! 3) 2) \<longrightarrow>
              eventKey rcd = keyPart ''UnknownEvent'' (idx (sampleEvents ! 3) 2) @ ''-''
                @ keyPart ''UnknownID'' (idx (sampleEvents ! 3) 3)))"
    by (rule eventKey_by_event_name [THEN conjunct1])
  with h(1,2,4) obtain k rcd where
    "attendanceEntry utcRuntime (sampleEvents ! 3) = Some (k, rcd)"
    "eventKey rcd = ''sunday service-'' @ toDateString utcRuntime 1710633600000"
    by blast
  with h(5) have a: "map_option (eventKey \<circ> snd) (attendanceEntry utcRuntime (sampleEvents ! 3)) =
       Some ''sunday service-Sun Mar 17 2024''"
    by simp
  have g: "length (sampleEvents ! 0) \<ge> 11"
    "parseTimestamp utcRuntime (idx (sampleEvents ! 0) 10) = Some 1710028800000"
    "\<not> sundayServiceName (idx (sampleEvents ! 0) 2)"
    "keyPart ''UnknownEvent'' (idx (sampleEvents ! 0) 2) = ''Picnic''"
    "keyPart ''UnknownID'' (idx (sampleEvents ! 0) 3) = ''E1''"
    by code_simp+
  have "length (sampleEvents ! 0) \<ge> 11
      \<and> parseTimestamp utcRuntime (idx (sampleEvents ! 0) 10) = Some 1710028800000 \<longrightarrow>
      (\<exists>k rcd. attendanceEntry utcRuntime (sampleEvents ! 0) = Some (k, rcd)
         \<and> (sundayServiceName (idx (sampleEvents ! 0) 2) \<longrightarrow>
              eventKey rcd = ''sunday service-'' @ toDateString utcRuntime 1710028800000)
         \<and> (\<not> sundayServiceName (idx (sampleEvents ! 0) 2) \<longrightarrow>
              eventKey rcd = keyPart ''UnknownEvent'' (idx (sampleEvents ! 0) 2) @ ''-''
                @ keyPart ''UnknownID'' (idx (sampleEvents ! 0) 3)))"
    by (rule eventKey_by_event_name [THEN conjunct1])
  with g(1,2,3) obtain k' rcd' where
    "attendanceEntry utcRuntime (sampleEvents ! 0) = Some (k', rcd')"
    "eventKey rcd' = keyPart ''UnknownEvent'' (idx (sampleEvents ! 0) 2) @ ''-''
                @ keyPart ''UnknownID'' (idx (sampleEvents ! 0) 3)"
    by blast
  with g(4,5) have b: "map_option (eventKey \<circ> snd) (attendanceEntry utcRuntime (sampleEvents ! 0)) = Some ''Picnic-E1''"
    by simp
  from h a g(3) b show ?thesis by (intro conjI)
qed

text \<open>
  The claim as stated fails on an event whose name is not the literal
  \<open>Sunday Service\<close> but contains it in lower case: its key is the date key, not the
  name followed by the id.
\<close>

theorem eventKey_literal_name_counterexample:
  "idx (sampleEvents ! 3) 2 = JStr ''Youth sunday service''
   \<and> idx (sampleEvents ! 3) 2 \<noteq> JStr ''Sunday Service''
   \<and> idx (sampleEvents ! 3) 3 = JStr ''E2''
   \<and> map_option (eventKey \<circ> snd) (attendanceEntry utcRuntime (sampleEvents ! 3)) =
       Some ''sunday service-Sun Mar 17 2024''
   \<and> map_option (eventKey \<circ> snd) (attendanceEntry utcRuntime (sampleEvents ! 3)) \<noteq>
       Some (''Youth sunday service'' @ ''E2'')"
  by code_simp

end
